theory Spec2Isabelle
  imports Main
begin

section \<open>The signal/slot registry of capo/signal.hpp\<close>

text \<open>
  The development embeds \<^verbatim>\<open>capo::signal\<close> (src/capo/signal.hpp): the slot objects
  \<^verbatim>\<open>slot_fn\<close>, the arity adaptation \<^verbatim>\<open>suitable_size\<close>, the registry operations of
  \<^verbatim>\<open>signal_b\<close> (connect, the three disconnect overloads) and the two dispatch operators
  \<^verbatim>\<open>signal<void(P...)>::operator()\<close> and \<^verbatim>\<open>signal<R(P...)>::operator()\<close>.

  The registry is a vector of pointers to heap objects, so the state is an explicit store:
  a list of addresses and a map from addresses to the live slot objects. What the C++
  standard leaves undefined (a call through a dangling pointer, an index out of range, an
  iterator used after the vector was modified) is a value of the model, \<open>Undefined\<close>.
  Fields of the source end in an underscore (\<^verbatim>\<open>slots_\<close>, \<^verbatim>\<open>f_\<close>, \<^verbatim>\<open>c_\<close>); such names
  are internal names in Isabelle, so the underscore is dropped or the field is prefixed.
\<close>

subsection \<open>Values and callables\<close>

type_synonym val = int
  \<comment> \<open>a fire-time argument, or a result of type \<^verbatim>\<open>R\<close>; \<^verbatim>\<open>R{}\<close> is \<open>0\<close>\<close>

type_synonym addr = nat
  \<comment> \<open>a \<^verbatim>\<open>slot<R, P...>*\<close>\<close>

definition nullptr :: addr where
  "nullptr = 0"

definition value_init :: val where
  \<comment> \<open>\<^verbatim>\<open>return {};\<close> for an arithmetic result type\<close>
  "value_init = 0"

text \<open>
  The static type \<^verbatim>\<open>F\<close> of a callable: which type it is, and the number of parameters
  \<^verbatim>\<open>capo::function_traits<F>\<close> finds for it, if it finds any.
\<close>

datatype fn_type = FnType (type_id: nat) (declared: "nat option")

text \<open>
  A slot object. \<open>slot_fn_free F f\<close> is \<^verbatim>\<open>slot_fn<void, F, R, P...>{f_}\<close>,
  \<open>slot_fn_bound C c F f\<close> is \<^verbatim>\<open>slot_fn<C, F, R, P...>{c_, f_}\<close>: the static types are
  part of the object's dynamic type, the values \<open>c\<close> and \<open>f\<close> are its members.
\<close>

datatype slot_fn =
    slot_fn_free (slot_F: fn_type) (slot_f: nat)
  | slot_fn_bound (slot_C: nat) (slot_c: nat) (slot_F: fn_type) (slot_f: nat)

subsection \<open>Arity adaptation\<close>

definition traits_parameters :: "nat \<Rightarrow> fn_type \<Rightarrow> nat" where
  \<comment> \<open>Modelled from the spec: capo/type_traits.hpp (\<^verbatim>\<open>function_traits\<close>) is missing.
      \<^verbatim>\<open>std::tuple_size<traits<void(P...), F>::parameters>\<close>: \<^verbatim>\<open>traits<S, F>\<close> is
      \<^verbatim>\<open>function_traits<S>\<close> when \<^verbatim>\<open>function_traits<F>::type\<close> is void, that is when the
      parameters of \<^verbatim>\<open>F\<close> are unknown, and \<^verbatim>\<open>function_traits<F>\<close> otherwise.\<close>
  "traits_parameters N F = (case declared F of None \<Rightarrow> N | Some M \<Rightarrow> M)"

definition min_number :: "nat \<Rightarrow> nat \<Rightarrow> nat" where
  \<comment> \<open>Modelled from the spec: capo/max_min.hpp is missing. The smaller of two constants.\<close>
  "min_number a b = (if b < a then b else a)"

definition size_to_seq :: "nat \<Rightarrow> nat list" where
  \<comment> \<open>Modelled from the spec: capo/types_to_seq.hpp is missing.
      \<^verbatim>\<open>size_to_seq<K>\<close> is \<^verbatim>\<open>constant_seq<0, ..., K-1>\<close>.\<close>
  "size_to_seq K = [0..<K]"

definition suitable_size :: "fn_type \<Rightarrow> nat \<Rightarrow> nat list" where
  \<comment> \<open>\<^verbatim>\<open>suitable_size<F, P...>\<close>, with \<open>N\<close> for \<^verbatim>\<open>sizeof...(P)\<close>\<close>
  "suitable_size F N = size_to_seq (min_number (traits_parameters N F) N)"

definition forward :: "nat list \<Rightarrow> val list \<Rightarrow> val list" where
  \<comment> \<open>\<^verbatim>\<open>std::get<N>(tp)...\<close>: the arguments the callable is applied to\<close>
  "forward seq tp = map (\<lambda>n. tp ! n) seq"

subsection \<open>Targets\<close>

text \<open>
  The code of a target is not part of the library. A target is modelled by what it does
  when it is called: it appends values to a log, calls connect and disconnect on the signal
  that is firing, and then either returns a value or throws.
\<close>

datatype action =
    Emit val
  | Connect slot_fn
  | Disconnect slot_fn
  | DisconnectAll

datatype finish = Return val | Throw nat

type_synonym env = "slot_fn \<Rightarrow> val list \<Rightarrow> action list \<times> finish"

subsection \<open>The state\<close>

record world =
  slots :: "addr list"
    \<comment> \<open>\<^verbatim>\<open>slots_\<close>, a \<^verbatim>\<open>capo::vector<slot<R, P...>*>\<close>\<close>
  epoch :: nat
    \<comment> \<open>the number of modifications of \<^verbatim>\<open>slots_\<close> so far: an iterator is valid as long as
        the epoch is the one at which it was taken\<close>
  heap :: "addr \<Rightarrow> slot_fn option"
    \<comment> \<open>the live slot objects\<close>
  brk :: addr
    \<comment> \<open>the address the next \<^verbatim>\<open>new\<close> returns\<close>
  log :: "val list"
    \<comment> \<open>what the targets emitted\<close>
  history :: "(slot_fn \<times> val list) list"
    \<comment> \<open>the calls made so far: the slot object and the arguments its callable received\<close>
  null_skips :: nat
    \<comment> \<open>how often a dispatch loop met \<^verbatim>\<open>sp == nullptr\<close>\<close>

datatype 'r outcome = Returned 'r world | Thrown nat world | Undefined

definition empty_signal :: world where
  "empty_signal = \<lparr>slots = [], epoch = 0, heap = (\<lambda>a. None), brk = 1, log = [],
     history = [], null_skips = 0\<rparr>"

subsection \<open>signal_b: connect\<close>

definition new_slot :: "slot_fn \<Rightarrow> world \<Rightarrow> addr \<times> world" where
  \<comment> \<open>\<^verbatim>\<open>new slot_fn<...>{...}\<close>; allocation is assumed to succeed\<close>
  "new_slot s w = (brk w, w\<lparr>heap := (heap w)(brk w \<mapsto> s), brk := Suc (brk w)\<rparr>)"

definition push_back :: "addr \<Rightarrow> world \<Rightarrow> world" where
  \<comment> \<open>Modelled from the spec: capo/vector.hpp is missing. \<^verbatim>\<open>capo::vector\<close> is the ordered
      sequence of the spec, taken to be \<^verbatim>\<open>std::vector\<close>: \<^verbatim>\<open>push_back\<close> appends at the end
      and invalidates the past-the-end iterator.\<close>
  "push_back a w = w\<lparr>slots := slots w @ [a], epoch := Suc (epoch w)\<rparr>"

definition connect_bound :: "nat \<Rightarrow> nat \<Rightarrow> fn_type \<Rightarrow> nat \<Rightarrow> world \<Rightarrow> world" where
  \<comment> \<open>\<^verbatim>\<open>connect(C&& receiver, F&& slot)\<close>\<close>
  "connect_bound C c F f w = (case new_slot (slot_fn_bound C c F f) w of (a, w') \<Rightarrow> push_back a w')"

definition connect_free :: "fn_type \<Rightarrow> nat \<Rightarrow> world \<Rightarrow> world" where
  \<comment> \<open>\<^verbatim>\<open>connect(F&& slot)\<close>\<close>
  "connect_free F f w = (case new_slot (slot_fn_free F f) w of (a, w') \<Rightarrow> push_back a w')"

fun connect :: "slot_fn \<Rightarrow> world \<Rightarrow> world" where
  "connect (slot_fn_free F f) w = connect_free F f w"
| "connect (slot_fn_bound C c F f) w = connect_bound C c F f w"

subsection \<open>signal_b: disconnect\<close>

fun dynamic_cast_bound :: "nat \<Rightarrow> fn_type \<Rightarrow> slot_fn \<Rightarrow> (nat \<times> nat) option" where
  \<comment> \<open>\<^verbatim>\<open>dynamic_cast<slot_fn<C, F, R, P...>*>\<close>: the members \<^verbatim>\<open>c_\<close> and \<^verbatim>\<open>f_\<close> on success\<close>
  "dynamic_cast_bound C F (slot_fn_bound C' c F' f) = (if C' = C \<and> F' = F then Some (c, f) else None)"
| "dynamic_cast_bound C F (slot_fn_free F' f) = None"

fun dynamic_cast_free :: "fn_type \<Rightarrow> slot_fn \<Rightarrow> nat option" where
  \<comment> \<open>\<^verbatim>\<open>dynamic_cast<slot_fn<void, F, R, P...>*>\<close>: the member \<^verbatim>\<open>f_\<close> on success\<close>
  "dynamic_cast_free F (slot_fn_free F' f) = (if F' = F then Some f else None)"
| "dynamic_cast_free F (slot_fn_bound C' c F' f) = None"

definition hit_bound :: "nat \<Rightarrow> nat \<Rightarrow> fn_type \<Rightarrow> nat \<Rightarrow> slot_fn \<Rightarrow> bool" where
  \<comment> \<open>the body of the loop of \<^verbatim>\<open>disconnect(C&&, F&&)\<close>: does it reach \<^verbatim>\<open>break\<close>?\<close>
  "hit_bound C c F f s =
     (case dynamic_cast_bound C F s of
        None \<Rightarrow> False
      | Some (c', f') \<Rightarrow> c' = c \<and> f' = f)"

definition hit_free :: "fn_type \<Rightarrow> nat \<Rightarrow> slot_fn \<Rightarrow> bool" where
  \<comment> \<open>the body of the loop of \<^verbatim>\<open>disconnect(F&&)\<close>: does it reach \<^verbatim>\<open>break\<close>?\<close>
  "hit_free F f s =
     (case dynamic_cast_free F s of
        None \<Rightarrow> False
      | Some f' \<Rightarrow> f' = f)"

datatype scan = Found nat | Not_Found | Dangling

fun find_slot :: "(slot_fn \<Rightarrow> bool) \<Rightarrow> (addr \<Rightarrow> slot_fn option) \<Rightarrow> addr list \<Rightarrow> nat \<Rightarrow> scan" where
  \<comment> \<open>the loop \<^verbatim>\<open>for (; it != slots_.end(); ++it)\<close> of both overloads, from position \<open>i\<close>;
      a null entry fails the cast, a dangling one has no dynamic type\<close>
  "find_slot hit h [] i = Not_Found"
| "find_slot hit h (a # as) i =
     (if a = nullptr then find_slot hit h as (Suc i)
      else case h a of
        None \<Rightarrow> Dangling
      | Some s \<Rightarrow> if hit s then Found i else find_slot hit h as (Suc i))"

definition delete :: "addr \<Rightarrow> world \<Rightarrow> world" where
  "delete a w = w\<lparr>heap := (heap w)(a := None)\<rparr>"

definition erase :: "nat \<Rightarrow> world \<Rightarrow> world" where
  \<comment> \<open>Modelled from the spec: capo/vector.hpp is missing. \<^verbatim>\<open>erase\<close> removes position \<open>i\<close>,
      closes the gap and keeps the order of the other entries; it invalidates the iterators
      from \<open>i\<close> on.\<close>
  "erase i w = w\<lparr>slots := take i (slots w) @ drop (Suc i) (slots w), epoch := Suc (epoch w)\<rparr>"

definition disconnect_with :: "(slot_fn \<Rightarrow> bool) \<Rightarrow> world \<Rightarrow> world option" where
  "disconnect_with hit w =
     (case find_slot hit (heap w) (slots w) 0 of
        Dangling \<Rightarrow> None
      | Not_Found \<Rightarrow> Some w
      | Found i \<Rightarrow> Some (erase i (delete (slots w ! i) w)))"

definition disconnect_bound :: "nat \<Rightarrow> nat \<Rightarrow> fn_type \<Rightarrow> nat \<Rightarrow> world \<Rightarrow> world option" where
  \<comment> \<open>\<^verbatim>\<open>disconnect(C&& receiver, F&& slot)\<close>; \<open>None\<close> is undefined behaviour\<close>
  "disconnect_bound C c F f w = disconnect_with (hit_bound C c F f) w"

definition disconnect_free :: "fn_type \<Rightarrow> nat \<Rightarrow> world \<Rightarrow> world option" where
  \<comment> \<open>\<^verbatim>\<open>disconnect(F&& slot)\<close>; \<open>None\<close> is undefined behaviour\<close>
  "disconnect_free F f w = disconnect_with (hit_free F f) w"

fun disconnect :: "slot_fn \<Rightarrow> world \<Rightarrow> world option" where
  "disconnect (slot_fn_free F f) w = disconnect_free F f w"
| "disconnect (slot_fn_bound C c F f) w = disconnect_bound C c F f w"

fun delete_each :: "addr list \<Rightarrow> (addr \<Rightarrow> slot_fn option) \<Rightarrow> (addr \<Rightarrow> slot_fn option) option" where
  \<comment> \<open>\<^verbatim>\<open>for (auto sp : slots_) delete sp;\<close> deleting a null pointer does nothing, deleting
      a dangling one is undefined\<close>
  "delete_each [] h = Some h"
| "delete_each (a # as) h =
     (if a = nullptr then delete_each as h
      else case h a of
        None \<Rightarrow> None
      | Some s \<Rightarrow> delete_each as (h(a := None)))"

definition disconnect_all :: "world \<Rightarrow> world option" where
  \<comment> \<open>\<^verbatim>\<open>disconnect(void)\<close>; \<^verbatim>\<open>clear\<close> empties the vector and invalidates every iterator\<close>
  "disconnect_all w =
     (case delete_each (slots w) (heap w) of
        None \<Rightarrow> None
      | Some h \<Rightarrow> Some (w\<lparr>heap := h, slots := [], epoch := Suc (epoch w)\<rparr>))"

subsection \<open>Calling a slot\<close>

fun exec_action :: "action \<Rightarrow> world \<Rightarrow> world option" where
  "exec_action (Emit v) w = Some (w\<lparr>log := log w @ [v]\<rparr>)"
| "exec_action (Connect s) w = Some (connect s w)"
| "exec_action (Disconnect s) w = disconnect s w"
| "exec_action DisconnectAll w = disconnect_all w"

fun exec_body :: "action list \<Rightarrow> world \<Rightarrow> world option" where
  "exec_body [] w = Some w"
| "exec_body (x # xs) w =
     (case exec_action x w of
        None \<Rightarrow> None
      | Some w' \<Rightarrow> exec_body xs w')"

definition invoke :: "env \<Rightarrow> slot_fn \<Rightarrow> val list \<Rightarrow> world \<Rightarrow> val outcome" where
  \<comment> \<open>\<^verbatim>\<open>f_(...)\<close> or \<^verbatim>\<open>(c_->*f_)(...)\<close> applied to the arguments \<open>xs\<close>\<close>
  "invoke \<beta> s xs w =
     (case \<beta> s xs of (body, fin) \<Rightarrow>
        (case exec_body body (w\<lparr>history := history w @ [(s, xs)]\<rparr>) of
           None \<Rightarrow> Undefined
         | Some w' \<Rightarrow> (case fin of Return r \<Rightarrow> Returned r w' | Throw e \<Rightarrow> Thrown e w')))"

definition call :: "env \<Rightarrow> addr \<Rightarrow> val list \<Rightarrow> world \<Rightarrow> val outcome" where
  \<comment> \<open>\<^verbatim>\<open>sp->call(args...)\<close>, the virtual call through a non-null pointer\<close>
  "call \<beta> sp args w =
     (case heap w sp of
        None \<Rightarrow> Undefined
      | Some s \<Rightarrow> invoke \<beta> s (forward (suitable_size (slot_F s) (length args)) args) w)"

subsection \<open>signal: the two dispatch operators\<close>

fun fire_void_loop :: "env \<Rightarrow> val list \<Rightarrow> nat \<Rightarrow> nat \<Rightarrow> nat \<Rightarrow> world \<Rightarrow> unit outcome" where
  \<comment> \<open>\<^verbatim>\<open>for (auto sp : this->slots_)\<close>: the iterators \<open>b\<close> and \<open>e\<close> were taken at epoch
      \<open>ver\<close>, and \<open>n\<close> is \<open>e - b\<close>. Each round compares and dereferences them.\<close>
  "fire_void_loop \<beta> args ver 0 b w = (if epoch w \<noteq> ver then Undefined else Returned () w)"
| "fire_void_loop \<beta> args ver (Suc n) b w =
     (if epoch w \<noteq> ver then Undefined
      else if slots w ! b = nullptr
        then fire_void_loop \<beta> args ver n (Suc b) (w\<lparr>null_skips := Suc (null_skips w)\<rparr>)
      else case call \<beta> (slots w ! b) args w of
        Returned r w' \<Rightarrow> fire_void_loop \<beta> args ver n (Suc b) w'
      | Thrown x w' \<Rightarrow> Thrown x w'
      | Undefined \<Rightarrow> Undefined)"

definition fire_void :: "env \<Rightarrow> val list \<Rightarrow> world \<Rightarrow> unit outcome" where
  \<comment> \<open>\<^verbatim>\<open>signal<void(P...)>::operator()\<close>\<close>
  "fire_void \<beta> args w = fire_void_loop \<beta> args (epoch w) (length (slots w)) 0 w"

definition SIZE_MAX :: nat where
  "SIZE_MAX = 2 ^ 64 - 1"

definition size_minus_1 :: "nat \<Rightarrow> nat" where
  \<comment> \<open>\<^verbatim>\<open>this->slots_.size() - 1\<close> in \<^verbatim>\<open>size_t\<close>: it wraps when the vector is empty; the
      size of a vector is below \<^verbatim>\<open>SIZE_MAX\<close>\<close>
  "size_minus_1 n = (if n = 0 then SIZE_MAX else n - 1)"

fun fire_result_loop :: "env \<Rightarrow> val list \<Rightarrow> nat \<Rightarrow> nat \<Rightarrow> world \<Rightarrow> unit outcome option" where
  \<comment> \<open>\<^verbatim>\<open>for (size_t i = 0; i < this->slots_.size() - 1; ++i)\<close>, from \<open>i\<close>. The first
      argument after \<open>args\<close> is fuel: the number of times the condition may be evaluated.
      \<open>None\<close>: the fuel is used up.\<close>
  "fire_result_loop \<beta> args 0 i w = None"
| "fire_result_loop \<beta> args (Suc k) i w =
     (if i < size_minus_1 (length (slots w)) then
        (if length (slots w) \<le> i then Some Undefined
         else if slots w ! i = nullptr
           then fire_result_loop \<beta> args k (Suc i) (w\<lparr>null_skips := Suc (null_skips w)\<rparr>)
         else case call \<beta> (slots w ! i) args w of
           Returned r w' \<Rightarrow> fire_result_loop \<beta> args k (Suc i) w'
         | Thrown x w' \<Rightarrow> Some (Thrown x w')
         | Undefined \<Rightarrow> Some Undefined)
      else Some (Returned () w))"

definition fire_result :: "env \<Rightarrow> val list \<Rightarrow> nat \<Rightarrow> world \<Rightarrow> val outcome option" where
  \<comment> \<open>\<^verbatim>\<open>signal<R(P...)>::operator()\<close>, with fuel for its loop\<close>
  "fire_result \<beta> args fuel w =
     (if slots w = [] then Some (Returned value_init w)
      else case fire_result_loop \<beta> args fuel 0 w of
        None \<Rightarrow> None
      | Some Undefined \<Rightarrow> Some Undefined
      | Some (Thrown x w') \<Rightarrow> Some (Thrown x w')
      | Some (Returned u w') \<Rightarrow>
          (if slots w' = [] then Some Undefined
           else if last (slots w') = nullptr
             then Some (Returned value_init (w'\<lparr>null_skips := Suc (null_skips w')\<rparr>))
           else Some (call \<beta> (last (slots w')) args w')))"

section \<open>Vocabulary of the properties\<close>

definition arity_K :: "nat option \<Rightarrow> nat \<Rightarrow> nat" where
  \<comment> \<open>the spec's forwarded arity: \<open>K = min(M, N)\<close> if the target's parameter count \<open>M\<close> is
      known, else \<open>K = N\<close>\<close>
  "arity_K M N = (case M of Some m \<Rightarrow> min m N | None \<Rightarrow> N)"

definition forwarded :: "slot_fn \<Rightarrow> val list \<Rightarrow> val list" where
  \<comment> \<open>the arguments \<^verbatim>\<open>call\<close> hands to the callable of slot \<open>s\<close>\<close>
  "forwarded s args = forward (suitable_size (slot_F s) (length args)) args"

fun emitted :: "action list \<Rightarrow> val list" where
  "emitted [] = []"
| "emitted (Emit v # xs) = v # emitted xs"
| "emitted (x # xs) = emitted xs"

fun is_emit :: "action \<Rightarrow> bool" where
  "is_emit (Emit v) = True"
| "is_emit x = False"

fun is_return :: "finish \<Rightarrow> bool" where
  "is_return (Return r) = True"
| "is_return (Throw e) = False"

fun returned :: "finish \<Rightarrow> val" where
  "returned (Return r) = r"
| "returned (Throw e) = value_init"

definition quiet :: "env \<Rightarrow> val list \<Rightarrow> slot_fn \<Rightarrow> bool" where
  \<comment> \<open>called in a pass with arguments \<open>args\<close>, the target of \<open>s\<close> leaves the signal alone
      and returns normally\<close>
  "quiet \<beta> args s =
     (list_all is_emit (fst (\<beta> s (forwarded s args))) \<and> is_return (snd (\<beta> s (forwarded s args))))"

definition ran :: "env \<Rightarrow> val list \<Rightarrow> slot_fn list \<Rightarrow> world \<Rightarrow> world" where
  \<comment> \<open>the state after the quiet targets \<open>ss\<close> were called one after the other\<close>
  "ran \<beta> args ss w =
     w\<lparr>log := log w @ concat (map (\<lambda>s. emitted (fst (\<beta> s (forwarded s args)))) ss),
       history := history w @ map (\<lambda>s. (s, forwarded s args)) ss\<rparr>"

fun segment :: "world \<Rightarrow> nat \<Rightarrow> slot_fn list \<Rightarrow> bool" where
  \<comment> \<open>from position \<open>i\<close> on, \<^verbatim>\<open>slots_\<close> holds non-null pointers to the live objects \<open>ss\<close>\<close>
  "segment w i [] = True"
| "segment w i (s # ss) =
     (i < length (slots w) \<and> slots w ! i \<noteq> nullptr \<and> heap w (slots w ! i) = Some s
      \<and> segment w (Suc i) ss)"

definition registry :: "world \<Rightarrow> slot_fn list \<Rightarrow> bool" where
  \<comment> \<open>the registered targets are exactly \<open>ss\<close>, in this order\<close>
  "registry w ss = (length (slots w) = length ss \<and> segment w 0 ss)"

subsection \<open>Example targets\<close>

definition ex_A :: slot_fn where
  "ex_A = slot_fn_free (FnType 7 (Some 1)) 1"

definition ex_B :: slot_fn where
  "ex_B = slot_fn_free (FnType 7 (Some 1)) 2"

definition ex_C :: slot_fn where
  "ex_C = slot_fn_free (FnType 7 (Some 1)) 3"

definition ex_ids :: env where
  \<comment> \<open>every target appends its own identity to the log and returns it\<close>
  "ex_ids s xs = ([Emit (int (slot_f s))], Return (int (slot_f s)))"

definition ex_AB :: world where
  "ex_AB = connect ex_B (connect ex_A empty_signal)"

definition ex_ABC :: world where
  "ex_ABC = connect ex_C (connect ex_B (connect ex_A empty_signal))"

definition ex_A1 :: world where
  "ex_A1 = connect ex_A empty_signal"

definition ex_ABA :: world where
  "ex_ABA = connect ex_A (connect ex_B (connect ex_A empty_signal))"

definition ex_throw :: env where
  \<comment> \<open>as \<open>ex_ids\<close>, but the target of \<open>ex_B\<close> throws after logging\<close>
  "ex_throw s xs = (if s = ex_B then ([Emit 2], Throw 42) else ex_ids s xs)"

definition ex_connects :: env where
  \<comment> \<open>as \<open>ex_ids\<close>, but the target of \<open>ex_A\<close> also connects \<open>ex_C\<close>\<close>
  "ex_connects s xs = (if s = ex_A then ([Emit 1, Connect ex_C], Return 1) else ex_ids s xs)"

definition ex_disconnects :: env where
  \<comment> \<open>as \<open>ex_ids\<close>, but the target of \<open>ex_A\<close> also disconnects \<open>ex_B\<close>\<close>
  "ex_disconnects s xs = (if s = ex_A then ([Emit 1, Disconnect ex_B], Return 1) else ex_ids s xs)"

definition ex_clears :: env where
  \<comment> \<open>as \<open>ex_ids\<close>, but the target of \<open>ex_A\<close> also disconnects everything\<close>
  "ex_clears s xs = (if s = ex_A then ([Emit 1, DisconnectAll], Return 1) else ex_ids s xs)"

definition ex_X :: slot_fn where
  \<comment> \<open>the same callable value as \<open>ex_A\<close>, under another static type\<close>
  "ex_X = slot_fn_free (FnType 8 (Some 1)) 1"

definition ex_M :: slot_fn where
  \<comment> \<open>a bound target: receiver 4 of type 9, method 2 of type 10\<close>
  "ex_M = slot_fn_bound 9 4 (FnType 10 (Some 1)) 2"

definition ex_XA :: world where
  "ex_XA = connect ex_A (connect ex_X empty_signal)"

definition ex_disc_throw :: env where
  \<comment> \<open>the target of \<open>ex_A\<close> disconnects \<open>ex_B\<close>, the target of \<open>ex_C\<close> throws\<close>
  "ex_disc_throw s xs =
     (if s = ex_A then ([Emit 1, Disconnect ex_B], Return 1)
      else if s = ex_C then ([Emit 3], Throw 42)
      else ex_ids s xs)"

subsection \<open>The registry after \<^verbatim>\<open>disconnect(void)\<close>\<close>

definition cleared :: "world \<Rightarrow> world" where
  \<comment> \<open>every object the vector points to is deleted and the vector is empty\<close>
  "cleared w = w\<lparr>heap := (\<lambda>a. if a \<in> set (slots w) then None else heap w a), slots := [],
     epoch := Suc (epoch w)\<rparr>"

subsection \<open>Well-formed and reachable states\<close>

fun final :: "'r outcome \<Rightarrow> world option" where
  \<comment> \<open>the state a pass or a call ends in, when it ends\<close>
  "final (Returned r w) = Some w"
| "final (Thrown e w) = Some w"
| "final Undefined = None"

definition wf :: "world \<Rightarrow> bool" where
  \<comment> \<open>every entry of \<^verbatim>\<open>slots_\<close> is a non-null pointer to a live object that \<^verbatim>\<open>new\<close>
      handed out, and no two entries are the same pointer\<close>
  "wf w = (nullptr \<notin> set (slots w) \<and> distinct (slots w) \<and> 0 < brk w
     \<and> (\<forall>a\<in>set (slots w). heap w a \<noteq> None \<and> a < brk w))"

text \<open>
  The states a signal can be in: it starts empty, and then its public operations are
  called, in any order and with any targets.
\<close>

inductive reachable :: "world \<Rightarrow> bool" where
  start: "reachable empty_signal"
| connected: "reachable w \<Longrightarrow> reachable (connect s w)"
| disconnected: "reachable w \<Longrightarrow> disconnect s w = Some w' \<Longrightarrow> reachable w'"
| disconnected_all: "reachable w \<Longrightarrow> disconnect_all w = Some w' \<Longrightarrow> reachable w'"
| fired_void: "reachable w \<Longrightarrow> final (fire_void \<beta> args w) = Some w' \<Longrightarrow> reachable w'"
| fired_result: "reachable w \<Longrightarrow> fire_result \<beta> args fuel w = Some out \<Longrightarrow> final out = Some w'
    \<Longrightarrow> reachable w'"

definition steady :: "world \<Rightarrow> world \<Rightarrow> bool" where
  \<comment> \<open>the epoch only grows, and while it stays the same so does the vector\<close>
  "steady w w' = (epoch w \<le> epoch w' \<and> (epoch w' = epoch w \<longrightarrow> slots w' = slots w))"

subsection \<open>The calls a pass made\<close>

definition call_returns :: "env \<Rightarrow> slot_fn \<times> val list \<Rightarrow> bool" where
  \<comment> \<open>the call recorded as \<open>c\<close> in the history ended by returning\<close>
  "call_returns \<beta> c = is_return (snd (\<beta> (fst c) (snd c)))"

definition call_throws :: "env \<Rightarrow> nat \<Rightarrow> slot_fn \<times> val list \<Rightarrow> bool" where
  \<comment> \<open>the call recorded as \<open>c\<close> in the history ended by throwing \<open>e\<close>\<close>
  "call_throws \<beta> e c = (snd (\<beta> (fst c) (snd c)) = Throw e)"

fun pass_trace :: "env \<Rightarrow> (slot_fn \<times> val list) list \<Rightarrow> 'r outcome \<Rightarrow> bool" where
  \<comment> \<open>a pass that began with history \<open>h\<close> only added calls to it. When it returned, each of
      them returned; when it threw \<open>e\<close>, the last of them threw \<open>e\<close> and the ones before
      returned.\<close>
  "pass_trace \<beta> h (Returned r w') =
     (take (length h) (history w') = h
      \<and> list_all (call_returns \<beta>) (drop (length h) (history w')))"
| "pass_trace \<beta> h (Thrown e w') =
     (take (length h) (history w') = h
      \<and> drop (length h) (history w') \<noteq> []
      \<and> list_all (call_returns \<beta>) (butlast (drop (length h) (history w')))
      \<and> call_throws \<beta> e (last (drop (length h) (history w'))))"
| "pass_trace \<beta> h Undefined = True"

section \<open>Lemmas\<close>

lemmas model_defs = empty_signal_def connect_free_def connect_bound_def new_slot_def push_back_def
  nullptr_def registry_def quiet_def forwarded_def suitable_size_def size_to_seq_def
  min_number_def traits_parameters_def forward_def ran_def

lemmas ex_defs = ex_A_def ex_B_def ex_C_def ex_ids_def ex_AB_def ex_ABC_def ex_A1_def ex_ABA_def
  ex_throw_def ex_connects_def ex_disconnects_def ex_clears_def ex_X_def ex_M_def ex_XA_def
  ex_disc_throw_def

lemmas eval_defs = call_def invoke_def size_minus_1_def SIZE_MAX_def fire_result_def fire_void_def
  disconnect_free_def disconnect_with_def hit_free_def erase_def delete_def disconnect_all_def
  value_init_def

subsection \<open>Forwarding\<close>

lemma forward_upt: "k \<le> length xs \<Longrightarrow> forward [0..<k] xs = take k xs"
  by (simp add: forward_def list_eq_iff_nth_eq)

lemma forward_suitable_size:
  "forward (suitable_size F (length xs)) xs = take (arity_K (declared F) (length xs)) xs"
  by (simp add: suitable_size_def size_to_seq_def min_number_def traits_parameters_def
      arity_K_def forward_upt split: option.splits)

subsection \<open>Quiet targets\<close>

lemma exec_body_emits:
  "list_all is_emit body \<Longrightarrow> exec_body body w = Some (w\<lparr>log := log w @ emitted body\<rparr>)"
proof (induction body arbitrary: w)
  case Nil
  then show ?case by simp
next
  case (Cons x xs)
  then obtain v where "x = Emit v" by (cases x) simp_all
  with Cons show ?case by simp
qed

lemma ran_Nil [simp]: "ran \<beta> args [] w = w"
  by (simp add: ran_def)

lemma ran_fields [simp]:
  "slots (ran \<beta> args ss w) = slots w"
  "heap (ran \<beta> args ss w) = heap w"
  "epoch (ran \<beta> args ss w) = epoch w"
  "brk (ran \<beta> args ss w) = brk w"
  "null_skips (ran \<beta> args ss w) = null_skips w"
  by (simp_all add: ran_def)

lemma ran_append: "ran \<beta> args (ss @ ts) w = ran \<beta> args ts (ran \<beta> args ss w)"
  by (simp add: ran_def)

lemma ran_Cons: "ran \<beta> args (s # ss) w = ran \<beta> args ss (ran \<beta> args [s] w)"
  using ran_append [of \<beta> args "[s]" ss w] by simp

lemma segment_cong:
  "slots w' = slots w \<Longrightarrow> heap w' = heap w \<Longrightarrow> segment w' i ss = segment w i ss"
  by (induction ss arbitrary: i) simp_all

lemma segment_ran [simp]: "segment (ran \<beta> args ts w) i ss = segment w i ss"
  by (rule segment_cong) simp_all

lemma segment_append:
  "segment w i (ss @ ts) = (segment w i ss \<and> segment w (i + length ss) ts)"
  by (induction ss arbitrary: i) auto

lemma call_quiet:
  assumes "heap w a = Some s" and "quiet \<beta> args s"
  shows "call \<beta> a args w = Returned (returned (snd (\<beta> s (forwarded s args)))) (ran \<beta> args [s] w)"
proof -
  obtain body fin where bf: "\<beta> s (forwarded s args) = (body, fin)"
    by (cases "\<beta> s (forwarded s args)")
  with assms(2) obtain r where "list_all is_emit body" and "fin = Return r"
    by (cases fin) (simp_all add: quiet_def)
  with bf assms(1) show ?thesis
    by (simp add: call_def invoke_def forwarded_def [symmetric] exec_body_emits ran_def)
qed

lemma call_general:
  assumes "heap w a = Some s" and "\<beta> s (forwarded s args) = (body, fin)"
    and "exec_body body (w\<lparr>history := history w @ [(s, forwarded s args)]\<rparr>) = Some w'"
  shows "call \<beta> a args w = (case fin of Return r \<Rightarrow> Returned r w' | Throw e \<Rightarrow> Thrown e w')"
  using assms by (simp add: call_def invoke_def forwarded_def [symmetric])

subsection \<open>The dispatch loops over quiet targets\<close>

lemma fire_void_loop_quiet:
  assumes "epoch w = ver" and "segment w b ss" and "\<forall>s\<in>set ss. quiet \<beta> args s"
  shows "fire_void_loop \<beta> args ver (length ss + m) b w
       = fire_void_loop \<beta> args ver m (b + length ss) (ran \<beta> args ss w)"
  using assms
proof (induction ss arbitrary: b w)
  case Nil
  then show ?case by simp
next
  case (Cons s ss)
  let ?w = "ran \<beta> args [s] w"
  from Cons.prems have live: "slots w ! b \<noteq> nullptr" "heap w (slots w ! b) = Some s"
    and rest: "segment w (Suc b) ss" and q: "quiet \<beta> args s" by simp_all
  have "fire_void_loop \<beta> args ver (length (s # ss) + m) b w
      = fire_void_loop \<beta> args ver (length ss + m) (Suc b) ?w"
    using Cons.prems(1) live by (simp add: call_quiet [OF live(2) q])
  also have "\<dots> = fire_void_loop \<beta> args ver m (Suc b + length ss) (ran \<beta> args ss ?w)"
    using Cons.prems rest by (intro Cons.IH) simp_all
  finally show ?case by (simp add: ran_Cons [symmetric])
qed

lemma fire_result_loop_quiet:
  assumes "segment w i ss" and "\<forall>s\<in>set ss. quiet \<beta> args s" and "i + length ss < length (slots w)"
  shows "fire_result_loop \<beta> args (length ss + k) i w
       = fire_result_loop \<beta> args k (i + length ss) (ran \<beta> args ss w)"
  using assms
proof (induction ss arbitrary: i w)
  case Nil
  then show ?case by simp
next
  case (Cons s ss)
  let ?w = "ran \<beta> args [s] w"
  from Cons.prems have live: "slots w ! i \<noteq> nullptr" "heap w (slots w ! i) = Some s"
    and rest: "segment w (Suc i) ss" and q: "quiet \<beta> args s" by simp_all
  from Cons.prems(3) have cond: "i < size_minus_1 (length (slots w))" "\<not> length (slots w) \<le> i"
    by (auto simp: size_minus_1_def)
  have "fire_result_loop \<beta> args (length (s # ss) + k) i w
      = fire_result_loop \<beta> args (length ss + k) (Suc i) ?w"
    using cond live by (simp add: call_quiet [OF live(2) q])
  also have "\<dots> = fire_result_loop \<beta> args k (Suc i + length ss) (ran \<beta> args ss ?w)"
    using Cons.prems rest by (intro Cons.IH) simp_all
  finally show ?case by (simp add: ran_Cons [symmetric])
qed

lemma fire_void_quiet:
  assumes "registry w ss" and "\<forall>s\<in>set ss. quiet \<beta> args s"
  shows "fire_void \<beta> args w = Returned () (ran \<beta> args ss w)"
proof -
  from assms(1) have len: "length (slots w) = length ss" and seg: "segment w 0 ss"
    by (simp_all add: registry_def)
  have "fire_void \<beta> args w = fire_void_loop \<beta> args (epoch w) (length ss + 0) 0 w"
    by (simp add: fire_void_def len)
  also have "\<dots> = fire_void_loop \<beta> args (epoch w) 0 (0 + length ss) (ran \<beta> args ss w)"
    using seg assms(2) by (intro fire_void_loop_quiet) simp_all
  finally show ?thesis by simp
qed

lemma fire_result_quiet:
  assumes "registry w (ss @ [l])" and "\<forall>s\<in>set (ss @ [l]). quiet \<beta> args s" and "length ss < fuel"
  shows "fire_result \<beta> args fuel w
       = Some (Returned (returned (snd (\<beta> l (forwarded l args)))) (ran \<beta> args (ss @ [l]) w))"
proof -
  let ?w = "ran \<beta> args ss w"
  from assms(1) have len: "length (slots w) = Suc (length ss)"
    and seg: "segment w 0 ss" and lst: "segment w (length ss) [l]"
    by (simp_all add: registry_def segment_append)
  from assms(3) obtain k where fuel: "fuel = length ss + Suc k"
    by (metis less_imp_Suc_add add_Suc_right)
  have "fire_result_loop \<beta> args fuel 0 w = fire_result_loop \<beta> args (Suc k) (0 + length ss) ?w"
    unfolding fuel using seg assms(2) len by (intro fire_result_loop_quiet) simp_all
  also have "\<dots> = Some (Returned () ?w)"
    by (simp add: len size_minus_1_def)
  finally have loop: "fire_result_loop \<beta> args fuel 0 w = Some (Returned () ?w)" .
  from len have ne: "slots w \<noteq> []" by auto
  then have lastp: "last (slots w) = slots w ! length ss"
    by (simp add: last_conv_nth len)
  from lst have live: "slots w ! length ss \<noteq> nullptr" "heap w (slots w ! length ss) = Some l"
    by simp_all
  from assms(2) have q: "quiet \<beta> args l" by simp
  have "call \<beta> (slots w ! length ss) args ?w
      = Returned (returned (snd (\<beta> l (forwarded l args)))) (ran \<beta> args [l] ?w)"
    using live(2) by (intro call_quiet [OF _ q]) simp
  with loop ne lastp live(1) show ?thesis
    by (simp add: fire_result_def ran_append)
qed

subsection \<open>The examples\<close>

lemma ex_AB_registry: "registry ex_AB [ex_A, ex_B]"
  by (simp add: ex_defs model_defs)

lemma ex_ABC_registry: "registry ex_ABC [ex_A, ex_B, ex_C]"
  by (simp add: ex_defs model_defs)

lemma ex_ids_quiet: "quiet ex_ids args s"
  by (simp add: quiet_def ex_ids_def)

subsection \<open>Disconnecting\<close>

lemma hit_free_iff: "hit_free F f s \<longleftrightarrow> s = slot_fn_free F f"
  by (cases s) (auto simp: hit_free_def)

lemma hit_bound_iff: "hit_bound C c F f s \<longleftrightarrow> s = slot_fn_bound C c F f"
  by (cases s) (auto simp: hit_bound_def)

lemma disconnect_eq: "disconnect p w = disconnect_with (\<lambda>s. s = p) w"
proof (cases p)
  case (slot_fn_free F f)
  have "hit_free F f = (\<lambda>s. s = slot_fn_free F f)" by (rule ext) (simp add: hit_free_iff)
  with slot_fn_free show ?thesis by (simp add: disconnect_free_def)
next
  case (slot_fn_bound C c F f)
  have "hit_bound C c F f = (\<lambda>s. s = slot_fn_bound C c F f)" by (rule ext) (simp add: hit_bound_iff)
  with slot_fn_bound show ?thesis by (simp add: disconnect_bound_def)
qed

lemma find_slot_miss:
  assumes "segment w i ss" and "i + length ss = length (slots w)" and "\<forall>t\<in>set ss. \<not> hit t"
  shows "find_slot hit (heap w) (drop i (slots w)) i = Not_Found"
  using assms
proof (induction ss arbitrary: i)
  case Nil
  then show ?case by simp
next
  case (Cons s ss)
  from Cons.prems have i: "i < length (slots w)" by simp
  then have "drop i (slots w) = slots w ! i # drop (Suc i) (slots w)"
    by (simp add: Cons_nth_drop_Suc)
  moreover from Cons.prems have "find_slot hit (heap w) (drop (Suc i) (slots w)) (Suc i) = Not_Found"
    by (intro Cons.IH) simp_all
  ultimately show ?case using Cons.prems by simp
qed

lemma find_slot_hit:
  assumes "segment w i (pre @ s # post)" and "i + length (pre @ s # post) = length (slots w)"
    and "\<forall>t\<in>set pre. \<not> hit t" and "hit s"
  shows "find_slot hit (heap w) (drop i (slots w)) i = Found (i + length pre)"
  using assms
proof (induction pre arbitrary: i)
  case Nil
  then have i: "i < length (slots w)" by simp
  then have "drop i (slots w) = slots w ! i # drop (Suc i) (slots w)"
    by (simp add: Cons_nth_drop_Suc)
  with Nil show ?case by simp
next
  case (Cons t pre)
  from Cons.prems have i: "i < length (slots w)" by simp
  then have "drop i (slots w) = slots w ! i # drop (Suc i) (slots w)"
    by (simp add: Cons_nth_drop_Suc)
  moreover from Cons.prems
  have "find_slot hit (heap w) (drop (Suc i) (slots w)) (Suc i) = Found (Suc i + length pre)"
    by (intro Cons.IH) simp_all
  ultimately show ?case using Cons.prems by simp
qed

lemma disconnect_absent:
  assumes "registry w ss" and "p \<notin> set ss"
  shows "disconnect p w = Some w"
proof -
  from assms have "find_slot (\<lambda>s. s = p) (heap w) (drop 0 (slots w)) 0 = Not_Found"
    by (intro find_slot_miss [where ss = ss]) (auto simp: registry_def)
  then show ?thesis by (simp add: disconnect_eq disconnect_with_def)
qed

lemma disconnect_present:
  assumes "registry w (pre @ p # post)" and "p \<notin> set pre"
  shows "disconnect p w = Some (erase (length pre) (delete (slots w ! length pre) w))"
proof -
  from assms have "find_slot (\<lambda>s. s = p) (heap w) (drop 0 (slots w)) 0 = Found (0 + length pre)"
    by (intro find_slot_hit [where post = post]) (auto simp: registry_def)
  then show ?thesis by (simp add: disconnect_eq disconnect_with_def)
qed

lemma segment_nth:
  "segment w i ss \<longleftrightarrow> (\<forall>j<length ss. i + j < length (slots w) \<and> slots w ! (i + j) \<noteq> nullptr
     \<and> heap w (slots w ! (i + j)) = Some (ss ! j))"
proof (induction ss arbitrary: i)
  case Nil
  then show ?case by simp
next
  case (Cons s ss)
  show ?case
    by (auto simp: Cons.IH All_less_Suc2)
qed

lemma registry_nth:
  "registry w ss \<longleftrightarrow> length (slots w) = length ss \<and> (\<forall>j<length ss. slots w ! j \<noteq> nullptr
     \<and> heap w (slots w ! j) = Some (ss ! j))"
  by (auto simp: registry_def segment_nth)

lemma registry_erase:
  assumes "registry w (pre @ p # post)" and "distinct (slots w)"
  shows "registry (erase (length pre) (delete (slots w ! length pre) w)) (pre @ post)"
proof -
  let ?n = "length pre"
  let ?a = "slots w ! ?n"
  let ?w = "erase ?n (delete ?a w)"
  from assms(1) have len: "length (slots w) = Suc (?n + length post)"
    and nth: "\<And>j. j < Suc (?n + length post) \<Longrightarrow> slots w ! j \<noteq> nullptr
      \<and> heap w (slots w ! j) = Some ((pre @ p # post) ! j)"
    by (simp_all add: registry_nth)
  have sl: "slots ?w = take ?n (slots w) @ drop (Suc ?n) (slots w)"
    and hp: "heap ?w = (heap w)(?a := None)"
    by (simp_all add: erase_def delete_def)
  have "slots ?w ! j \<noteq> nullptr \<and> heap ?w (slots ?w ! j) = Some ((pre @ post) ! j)"
    if j: "j < ?n + length post" for j
  proof (cases "j < ?n")
    case True
    then have e: "slots ?w ! j = slots w ! j" by (simp add: sl nth_append len)
    from True len assms(2) have "slots w ! j \<noteq> ?a" by (simp add: nth_eq_iff_index_eq)
    with e nth [of j] True show ?thesis by (simp add: hp nth_append)
  next
    case False
    then have e: "slots ?w ! j = slots w ! Suc j"
      using j by (simp add: sl nth_append len min_def)
    from False j len assms(2) have "slots w ! Suc j \<noteq> ?a" by (simp add: nth_eq_iff_index_eq)
    with e nth [of "Suc j"] False j show ?thesis by (simp add: hp nth_append Suc_diff_le)
  qed
  moreover have "length (slots ?w) = length (pre @ post)" by (simp add: sl len)
  ultimately show ?thesis by (simp add: registry_nth)
qed


lemma disconnect_with_fields:
  assumes "disconnect_with hit w = Some w'"
  shows "history w' = history w" and "log w' = log w" and "null_skips w' = null_skips w"
  using assms
  by (auto simp: disconnect_with_def erase_def delete_def split: scan.splits)

lemma disconnect_all_fields:
  assumes "disconnect_all w = Some w'"
  shows "history w' = history w" and "log w' = log w" and "null_skips w' = null_skips w"
  using assms by (auto simp: disconnect_all_def split: option.splits)

lemma connect_fields:
  "history (connect s w) = history w" "log (connect s w) = log w"
  "null_skips (connect s w) = null_skips w"
  by (cases s; simp add: connect_free_def connect_bound_def new_slot_def push_back_def)+

lemma exec_action_fields:
  assumes "exec_action x w = Some w'"
  shows "history w' = history w" and "null_skips w' = null_skips w"
  using assms
  by (cases x; auto simp: connect_fields disconnect_eq dest: disconnect_with_fields disconnect_all_fields)+

lemma exec_body_fields:
  assumes "exec_body body w = Some w'"
  shows "history w' = history w" and "null_skips w' = null_skips w"
  using assms
proof (induction body arbitrary: w)
  case Nil
  case 1 then show ?case by simp
  case 2 then show ?case by simp
next
  case (Cons x xs)
  case 1
  then obtain v where "exec_action x w = Some v" "exec_body xs v = Some w'"
    by (auto split: option.splits)
  then show ?case using Cons.IH(1) exec_action_fields(1) by metis
  case 2
  then obtain v where "exec_action x w = Some v" "exec_body xs v = Some w'"
    by (auto split: option.splits)
  then show ?case using Cons.IH(2) exec_action_fields(2) by metis
qed

lemma fire_void_throw:
  assumes "registry w (pre @ s # post)" and "\<forall>t\<in>set pre. quiet \<beta> args t"
    and "\<beta> s (forwarded s args) = (body, Throw e)"
    and "exec_body body ((ran \<beta> args pre w)\<lparr>history := history (ran \<beta> args pre w) @ [(s, forwarded s args)]\<rparr>) = Some w'"
  shows "fire_void \<beta> args w = Thrown e w'"
proof -
  let ?w = "ran \<beta> args pre w"
  from assms(1) have len: "length (slots w) = length pre + Suc (length post)"
    and seg: "segment w 0 pre" and at: "segment w (length pre) [s]"
    by (simp_all add: registry_def segment_append)
  from at have live: "slots w ! length pre \<noteq> nullptr" "heap ?w (slots w ! length pre) = Some s"
    by simp_all
  have c: "call \<beta> (slots w ! length pre) args ?w = Thrown e w'"
    using call_general [where \<beta> = \<beta> and fin = "Throw e", OF live(2) assms(3) assms(4)] by simp
  have "fire_void \<beta> args w = fire_void_loop \<beta> args (epoch w) (length pre + Suc (length post)) 0 w"
    by (simp add: fire_void_def len)
  also have "\<dots> = fire_void_loop \<beta> args (epoch w) (Suc (length post)) (0 + length pre) ?w"
    using seg assms(2) by (intro fire_void_loop_quiet) simp_all
  also have "\<dots> = Thrown e w'"
    using live(1) c by simp
  finally show ?thesis .
qed

lemma fire_result_throw:
  assumes "registry w (pre @ s # post)" and "\<forall>t\<in>set pre. quiet \<beta> args t"
    and "\<beta> s (forwarded s args) = (body, Throw e)"
    and "exec_body body ((ran \<beta> args pre w)\<lparr>history := history (ran \<beta> args pre w) @ [(s, forwarded s args)]\<rparr>) = Some w'"
    and "length pre < fuel"
  shows "fire_result \<beta> args fuel w = Some (Thrown e w')"
proof -
  let ?w = "ran \<beta> args pre w"
  from assms(1) have len: "length (slots w) = length pre + Suc (length post)"
    and seg: "segment w 0 pre" and at: "segment w (length pre) [s]"
    by (simp_all add: registry_def segment_append)
  from at have live: "slots w ! length pre \<noteq> nullptr" "heap ?w (slots w ! length pre) = Some s"
    by simp_all
  have c: "call \<beta> (slots w ! length pre) args ?w = Thrown e w'"
    using call_general [where \<beta> = \<beta> and fin = "Throw e", OF live(2) assms(3) assms(4)] by simp
  from len have ne: "slots w \<noteq> []" by auto
  from assms(5) obtain k where fuel: "fuel = length pre + Suc k"
    by (metis less_imp_Suc_add add_Suc_right)
  have skip: "fire_result_loop \<beta> args fuel 0 w = fire_result_loop \<beta> args (Suc k) (0 + length pre) ?w"
    unfolding fuel using seg assms(2) len by (intro fire_result_loop_quiet) simp_all
  show ?thesis
  proof (cases post)
    case Nil
    with len have "fire_result_loop \<beta> args (Suc k) (0 + length pre) ?w = Some (Returned () ?w)"
      by (simp add: size_minus_1_def)
    moreover from Nil len ne have "last (slots w) = slots w ! length pre"
      by (simp add: last_conv_nth)
    ultimately show ?thesis using skip ne live(1) c by (simp add: fire_result_def)
  next
    case (Cons t ts)
    with len have "fire_result_loop \<beta> args (Suc k) (0 + length pre) ?w = Some (Thrown e w')"
      using live(1) c by (simp add: size_minus_1_def)
    with skip ne show ?thesis by (simp add: fire_result_def)
  qed
qed

lemma delete_each_live:
  assumes "distinct as" and "nullptr \<notin> set as" and "\<forall>a\<in>set as. h a \<noteq> None"
  shows "delete_each as h = Some (\<lambda>a. if a \<in> set as then None else h a)"
  using assms
proof (induction as arbitrary: h)
  case Nil
  then show ?case by simp
next
  case (Cons a as)
  from Cons.prems obtain s where s: "h a = Some s" by auto
  from Cons.prems have "delete_each as (h(a := None))
      = Some (\<lambda>b. if b \<in> set as then None else (h(a := None)) b)"
    by (intro Cons.IH) auto
  moreover have "(\<lambda>b. if b \<in> set as then None else (h(a := None)) b)
      = (\<lambda>b. if b \<in> set (a # as) then None else h b)"
    by (rule ext) simp
  ultimately show ?case using Cons.prems s by simp
qed

lemma registry_live:
  assumes "registry w ss"
  shows "nullptr \<notin> set (slots w)" and "\<forall>a\<in>set (slots w). heap w a \<noteq> None"
  using assms by (auto simp: registry_nth in_set_conv_nth)

lemma disconnect_all_cleared:
  assumes "registry w ss" and "distinct (slots w)"
  shows "disconnect_all w = Some (cleared w)"
  using delete_each_live [OF assms(2) registry_live [OF assms(1)]]
  by (simp add: disconnect_all_def cleared_def)

subsection \<open>Well-formedness is kept\<close>

lemma steady_refl [simp]: "steady w w"
  by (simp add: steady_def)

lemma steady_trans: "steady w v \<Longrightarrow> steady v u \<Longrightarrow> steady w u"
  by (auto simp: steady_def)

lemma wf_empty_signal: "wf empty_signal"
  by (simp add: wf_def empty_signal_def)

lemma wf_connect: "wf w \<Longrightarrow> wf (connect s w)"
  by (cases s) (auto simp: wf_def connect_free_def connect_bound_def new_slot_def push_back_def nullptr_def)

lemma steady_connect: "steady w (connect s w)"
  by (cases s) (simp_all add: steady_def connect_free_def connect_bound_def new_slot_def push_back_def)

lemma find_slot_Found:
  "find_slot hit h as i0 = Found i \<Longrightarrow> i0 \<le> i \<and> i < i0 + length as"
proof (induction as arbitrary: i0)
  case Nil
  then show ?case by simp
next
  case (Cons a as)
  show ?case
  proof (cases "find_slot hit h as (Suc i0) = Found i")
    case True
    from Cons.IH [OF this] show ?thesis by simp
  next
    case False
    with Cons.prems have "i = i0" by (auto split: if_splits option.splits)
    then show ?thesis by simp
  qed
qed

lemma wf_erase:
  assumes "wf w" and "i < length (slots w)"
  shows "wf (erase i (delete (slots w ! i) w))"
proof -
  let ?xs = "take i (slots w) @ drop (Suc i) (slots w)"
  from assms have d: "distinct (slots w)" by (simp add: wf_def)
  have sub: "set ?xs \<subseteq> set (slots w)"
    by (auto dest: in_set_takeD in_set_dropD)
  from assms(2) have "slots w = take i (slots w) @ slots w ! i # drop (Suc i) (slots w)"
    by (simp add: id_take_nth_drop [symmetric])
  with d have "distinct (take i (slots w) @ slots w ! i # drop (Suc i) (slots w))" by simp
  then have dx: "distinct ?xs" and nx: "slots w ! i \<notin> set ?xs" by auto
  with assms(1) sub show ?thesis
    by (auto simp: wf_def erase_def delete_def)
qed

lemma wf_disconnect_with:
  assumes "wf w" and "disconnect_with hit w = Some w'"
  shows "wf w'"
proof (cases "find_slot hit (heap w) (slots w) 0")
  case (Found i)
  from find_slot_Found [OF this] have "i < length (slots w)" by simp
  from wf_erase [OF assms(1) this] Found assms(2) show ?thesis
    by (simp add: disconnect_with_def)
next
  case Not_Found
  with assms show ?thesis by (simp add: disconnect_with_def)
next
  case Dangling
  with assms show ?thesis by (simp add: disconnect_with_def)
qed

lemma steady_disconnect_with: "disconnect_with hit w = Some w' \<Longrightarrow> steady w w'"
  by (auto simp: disconnect_with_def steady_def erase_def delete_def split: scan.splits)

lemma wf_disconnect_all: "wf w \<Longrightarrow> disconnect_all w = Some w' \<Longrightarrow> wf w'"
  by (auto simp: disconnect_all_def wf_def split: option.splits)

lemma steady_disconnect_all: "disconnect_all w = Some w' \<Longrightarrow> steady w w'"
  by (auto simp: disconnect_all_def steady_def split: option.splits)

lemma wf_exec_action:
  assumes "wf w" and "exec_action x w = Some w'"
  shows "wf w'"
proof (cases x)
  case (Emit v)
  with assms show ?thesis by (auto simp: wf_def)
next
  case (Connect s)
  with assms show ?thesis by (auto simp: wf_connect)
next
  case (Disconnect s)
  with assms show ?thesis by (auto simp: disconnect_eq intro: wf_disconnect_with)
next
  case DisconnectAll
  with assms show ?thesis by (auto intro: wf_disconnect_all)
qed

lemma steady_exec_action:
  assumes "exec_action x w = Some w'"
  shows "steady w w'"
proof (cases x)
  case (Emit v)
  with assms show ?thesis by (auto simp: steady_def)
next
  case (Connect s)
  with assms show ?thesis by (auto simp: steady_connect)
next
  case (Disconnect s)
  with assms show ?thesis by (auto simp: disconnect_eq intro: steady_disconnect_with)
next
  case DisconnectAll
  with assms show ?thesis by (auto intro: steady_disconnect_all)
qed

lemma exec_body_keeps:
  "exec_body body w = Some w' \<Longrightarrow> steady w w' \<and> (wf w \<longrightarrow> wf w')"
proof (induction body arbitrary: w)
  case Nil
  then show ?case by simp
next
  case (Cons x xs)
  then obtain v where v: "exec_action x w = Some v" and w': "exec_body xs v = Some w'"
    by (auto split: option.splits)
  from Cons.IH [OF w'] steady_exec_action [OF v] wf_exec_action [OF _ v]
  show ?case by (blast intro: steady_trans)
qed

lemma call_keeps:
  assumes "final (call \<beta> a args w) = Some w'"
  shows "steady w w' \<and> (wf w \<longrightarrow> wf w') \<and> null_skips w' = null_skips w"
proof -
  from assms obtain s where s: "heap w a = Some s"
    by (auto simp: call_def split: option.splits)
  obtain body fin where bf: "\<beta> s (forwarded s args) = (body, fin)"
    by (cases "\<beta> s (forwarded s args)")
  let ?w = "w\<lparr>history := history w @ [(s, forwarded s args)]\<rparr>"
  from assms s bf have x: "exec_body body ?w = Some w'"
    by (auto simp: call_def invoke_def forwarded_def [symmetric] split: option.splits finish.splits)
  have "steady w ?w" "wf w \<longrightarrow> wf ?w" by (simp_all add: steady_def wf_def)
  with exec_body_keeps [OF x] exec_body_fields(2) [OF x] show ?thesis
    by (auto intro: steady_trans)
qed


lemma wf_nth:
  assumes "wf w" and "i < length (slots w)"
  shows "slots w ! i \<noteq> nullptr" and "heap w (slots w ! i) \<noteq> None"
proof -
  from assms(2) have "slots w ! i \<in> set (slots w)" by (rule nth_mem)
  with assms(1) show "slots w ! i \<noteq> nullptr" and "heap w (slots w ! i) \<noteq> None"
    by (auto simp: wf_def)
qed

lemma fire_void_loop_keeps:
  assumes "final (fire_void_loop \<beta> args ver n b w) = Some w'" and "wf w"
    and "epoch w = ver \<longrightarrow> b + n = length (slots w)"
  shows "wf w' \<and> null_skips w' = null_skips w"
  using assms
proof (induction n arbitrary: b w)
  case 0
  then show ?case by (simp split: if_splits)
next
  case (Suc n)
  from Suc.prems(1) have ep: "epoch w = ver" by (simp split: if_splits)
  with Suc.prems(3) have "b < length (slots w)" by simp
  with Suc.prems(2) have nn: "slots w ! b \<noteq> nullptr" by (simp add: wf_nth)
  show ?case
  proof (cases "call \<beta> (slots w ! b) args w")
    case (Returned r v)
    then have "final (call \<beta> (slots w ! b) args w) = Some v" by simp
    from call_keeps [OF this] Suc.prems(2)
    have st: "steady w v" and wf: "wf v" and ns: "null_skips v = null_skips w" by simp_all
    from st ep Suc.prems(3) have "epoch v = ver \<longrightarrow> Suc b + n = length (slots v)"
      by (auto simp: steady_def)
    moreover from Suc.prems(1) ep nn Returned
    have "final (fire_void_loop \<beta> args ver n (Suc b) v) = Some w'" by simp
    ultimately show ?thesis using Suc.IH wf ns by metis
  next
    case (Thrown x v)
    then have "final (call \<beta> (slots w ! b) args w) = Some v" by simp
    from call_keeps [OF this] Suc.prems(2)
    have "wf v" "null_skips v = null_skips w" by simp_all
    moreover from Suc.prems(1) ep nn Thrown have "w' = v" by simp
    ultimately show ?thesis by simp
  next
    case Undefined
    with Suc.prems(1) ep nn show ?thesis by simp
  qed
qed

lemma fire_result_loop_keeps:
  assumes "fire_result_loop \<beta> args k i w = Some out" and "final out = Some w'" and "wf w"
  shows "wf w' \<and> null_skips w' = null_skips w"
  using assms
proof (induction k arbitrary: i w)
  case 0
  then show ?case by simp
next
  case (Suc k)
  show ?case
  proof (cases "i < size_minus_1 (length (slots w))")
    case False
    with Suc.prems show ?thesis by auto
  next
    case True
    with Suc.prems(1,2) have i: "i < length (slots w)" by (auto split: if_splits)
    with Suc.prems(3) have nn: "slots w ! i \<noteq> nullptr" by (simp add: wf_nth)
    show ?thesis
    proof (cases "call \<beta> (slots w ! i) args w")
      case (Returned r v)
      then have "final (call \<beta> (slots w ! i) args w) = Some v" by simp
      from call_keeps [OF this] Suc.prems(3)
      have wf: "wf v" and ns: "null_skips v = null_skips w" by simp_all
      from Suc.prems(1) True i nn Returned
      have "fire_result_loop \<beta> args k (Suc i) v = Some out" by simp
      from Suc.IH [OF this Suc.prems(2) wf] ns show ?thesis by simp
    next
      case (Thrown x v)
      then have "final (call \<beta> (slots w ! i) args w) = Some v" by simp
      from call_keeps [OF this] Suc.prems(3)
      have "wf v" "null_skips v = null_skips w" by simp_all
      moreover from Suc.prems(1,2) True i nn Thrown have "w' = v" by auto
      ultimately show ?thesis by simp
    next
      case Undefined
      with Suc.prems(1,2) True i nn show ?thesis by auto
    qed
  qed
qed

lemma fire_void_keeps:
  assumes "final (fire_void \<beta> args w) = Some w'" and "wf w"
  shows "wf w' \<and> null_skips w' = null_skips w"
  using fire_void_loop_keeps [of \<beta> args "epoch w" "length (slots w)" 0 w w'] assms
  by (simp add: fire_void_def)

lemma fire_result_keeps:
  assumes "fire_result \<beta> args fuel w = Some out" and "final out = Some w'" and "wf w"
  shows "wf w' \<and> null_skips w' = null_skips w"
proof (cases "slots w = []")
  case True
  with assms show ?thesis by (auto simp: fire_result_def)
next
  case False
  with assms(1) obtain lp where lp: "fire_result_loop \<beta> args fuel 0 w = Some lp"
    by (auto simp: fire_result_def split: option.splits)
  show ?thesis
  proof (cases lp)
    case (Returned u v)
    with lp have "final lp = Some v" by simp
    from fire_result_loop_keeps [OF lp this assms(3)]
    have wf: "wf v" and ns: "null_skips v = null_skips w" by simp_all
    from assms(1,2) False lp Returned have ne: "slots v \<noteq> []"
      by (auto simp: fire_result_def split: if_splits)
    with wf have "last (slots v) \<noteq> nullptr" by (auto simp: wf_def dest: last_in_set)
    with assms(1) False lp Returned ne have "out = call \<beta> (last (slots v)) args v"
      by (simp add: fire_result_def)
    with assms(2) call_keeps [of \<beta> "last (slots v)" args v w'] wf ns show ?thesis by simp
  next
    case (Thrown x v)
    with lp have "final lp = Some v" by simp
    from fire_result_loop_keeps [OF lp this assms(3)]
    have "wf v" "null_skips v = null_skips w" by simp_all
    moreover from assms(1,2) False lp Thrown have "w' = v" by (auto simp: fire_result_def)
    ultimately show ?thesis by simp
  next
    case Undefined
    with assms(1,2) False lp show ?thesis by (auto simp: fire_result_def)
  qed
qed

lemma reachable_wf: "reachable w \<Longrightarrow> wf w \<and> null_skips w = 0"
proof (induction rule: reachable.induct)
  case start
  show ?case by (simp add: wf_empty_signal) (simp add: empty_signal_def)
next
  case (connected w s)
  then show ?case by (simp add: wf_connect connect_fields)
next
  case (disconnected w s w')
  then show ?case
    using wf_disconnect_with [of w "\<lambda>t. t = s" w'] disconnect_with_fields(3) [of "\<lambda>t. t = s" w w']
    by (simp add: disconnect_eq)
next
  case (disconnected_all w w')
  then show ?case using wf_disconnect_all disconnect_all_fields(3) by metis
next
  case (fired_void w \<beta> args w')
  then show ?case using fire_void_keeps by metis
next
  case (fired_result w \<beta> args fuel out w')
  then show ?case using fire_result_keeps by metis
qed

lemma wf_registry: "wf w \<Longrightarrow> registry w (map (\<lambda>a. the (heap w a)) (slots w))"
  using wf_nth [of w] by (auto simp: registry_nth)

lemma wf_disconnect_defined:
  assumes "wf w"
  shows "disconnect p w \<noteq> None" and "disconnect_all w \<noteq> None"
proof -
  let ?ss = "map (\<lambda>a. the (heap w a)) (slots w)"
  have r: "registry w ?ss" by (rule wf_registry [OF assms])
  show "disconnect p w \<noteq> None"
  proof (cases "p \<in> set ?ss")
    case True
    from split_list_first [OF this]
    obtain pre post where sp: "?ss = pre @ p # post" and "p \<notin> set pre" by blast
    with r disconnect_present [of w pre p post] show ?thesis by simp
  next
    case False
    from disconnect_absent [OF r False] show ?thesis by simp
  qed
  from assms have "distinct (slots w)" by (simp add: wf_def)
  from disconnect_all_cleared [OF r this] show "disconnect_all w \<noteq> None" by simp
qed

subsection \<open>Passes whose targets change the registry\<close>

lemma ex_connects_pass:
  "fire_result ex_connects [] 3 ex_AB
     = Some (Returned 3 ((connect ex_C ex_AB)\<lparr>log := [1, 2, 3],
         history := [(ex_A, []), (ex_B, []), (ex_C, [])]\<rparr>))"
  by (simp add: ex_defs model_defs eval_defs numeral_2_eq_2 numeral_3_eq_3 fun_eq_iff)

lemma ex_disconnects_pass:
  "fire_result ex_disconnects [] 3 ex_ABC
     = Some (Returned 3 ((erase 1 (delete 2 ex_ABC))\<lparr>log := [1, 3],
         history := [(ex_A, []), (ex_C, [])]\<rparr>))"
  by (simp add: ex_defs model_defs eval_defs numeral_2_eq_2 numeral_3_eq_3 fun_eq_iff)

lemma ex_clears_pass: "fire_void ex_clears [] ex_AB = Undefined"
  by (simp add: ex_defs model_defs eval_defs numeral_2_eq_2 numeral_3_eq_3 fun_eq_iff)

lemma ex_connects_void_pass: "fire_void ex_connects [] ex_AB = Undefined"
  by (simp add: ex_defs model_defs eval_defs numeral_2_eq_2 numeral_3_eq_3 fun_eq_iff)

lemma ex_AB_reachable: "reachable ex_AB"
  unfolding ex_AB_def by (intro reachable.connected reachable.start)

lemma fire_result_quiet_any:
  assumes "registry w ss" and "\<forall>s\<in>set ss. quiet \<beta> args s" and "length ss \<le> fuel"
  shows "fire_result \<beta> args fuel w
       = Some (Returned (if ss = [] then value_init
                         else returned (snd (\<beta> (last ss) (forwarded (last ss) args))))
                (ran \<beta> args ss w))"
proof (cases ss rule: rev_cases)
  case Nil
  with assms(1) show ?thesis by (simp add: registry_def fire_result_def)
next
  case (snoc ts l)
  with assms have "fire_result \<beta> args fuel w
      = Some (Returned (returned (snd (\<beta> l (forwarded l args)))) (ran \<beta> args (ts @ [l]) w))"
    by (intro fire_result_quiet) simp_all
  with snoc show ?thesis by simp
qed

text \<open>
  Every reachable state is a registry of some list of targets, with pairwise different
  pointers: the hypotheses of the theorems below cover all states of a signal.
\<close>

lemma reachable_registry:
  assumes "reachable w"
  shows "registry w (map (\<lambda>a. the (heap w a)) (slots w)) \<and> distinct (slots w)"
proof -
  from reachable_wf [OF assms] have "wf w" by simp
  then show ?thesis by (simp add: wf_registry) (simp add: wf_def)
qed

subsection \<open>Connecting appends\<close>




subsection \<open>A throw ends the pass\<close>

lemma pass_trace_ReturnedI:
  "history w' = h @ added \<Longrightarrow> list_all (call_returns \<beta>) added \<Longrightarrow> pass_trace \<beta> h (Returned r w')"
  by simp

lemma pass_trace_ThrownI:
  "history w' = h @ added @ [c] \<Longrightarrow> list_all (call_returns \<beta>) added \<Longrightarrow> call_throws \<beta> e c
    \<Longrightarrow> pass_trace \<beta> h (Thrown e w')"
  by simp

lemma pass_trace_ReturnedD:
  assumes "pass_trace \<beta> h (Returned r w')"
  shows "\<exists>added. history w' = h @ added \<and> list_all (call_returns \<beta>) added"
proof -
  from assms have "history w' = h @ drop (length h) (history w')"
    by (metis append_take_drop_id pass_trace.simps(1))
  with assms show ?thesis by auto
qed

lemma pass_trace_Undefined [simp]: "pass_trace \<beta> h Undefined"
  by simp

lemma pass_trace_start [simp]: "pass_trace \<beta> (history w) (Returned r w)"
  by simp

declare pass_trace.simps [simp del]

lemma call_trace:
  assumes "call \<beta> a args w = out"
  shows "case out of
      Returned r v \<Rightarrow> \<exists>c. history v = history w @ [c] \<and> call_returns \<beta> c
    | Thrown e v \<Rightarrow> \<exists>c. history v = history w @ [c] \<and> call_throws \<beta> e c
    | Undefined \<Rightarrow> True"
proof (cases "heap w a")
  case None
  with assms show ?thesis by (auto simp: call_def)
next
  case (Some s)
  obtain body fin where bf: "\<beta> s (forwarded s args) = (body, fin)"
    by (cases "\<beta> s (forwarded s args)")
  let ?w = "w\<lparr>history := history w @ [(s, forwarded s args)]\<rparr>"
  show ?thesis
  proof (cases "exec_body body ?w")
    case None
    with assms Some bf show ?thesis
      by (auto simp: call_def invoke_def forwarded_def [symmetric])
  next
    case (Some v)
    from exec_body_fields(1) [OF this] have h: "history v = history w @ [(s, forwarded s args)]"
      by simp
    from assms \<open>heap w a = Some s\<close> bf Some
    have "out = (case fin of Return r \<Rightarrow> Returned r v | Throw e \<Rightarrow> Thrown e v)"
      by (auto simp: call_def invoke_def forwarded_def [symmetric])
    with h bf show ?thesis
      by (cases fin) (auto simp: call_returns_def call_throws_def)
  qed
qed

lemma fire_void_loop_trace:
  assumes "history w = h @ added" and "list_all (call_returns \<beta>) added"
  shows "pass_trace \<beta> h (fire_void_loop \<beta> args ver n b w)"
  using assms
proof (induction n arbitrary: b w added)
  case 0
  then show ?case by (auto intro: pass_trace_ReturnedI)
next
  case (Suc n)
  show ?case
  proof (cases "epoch w \<noteq> ver")
    case True
    then show ?thesis by simp
  next
    case ep: False
    show ?thesis
    proof (cases "slots w ! b = nullptr")
      case True
      have "pass_trace \<beta> h (fire_void_loop \<beta> args ver n (Suc b) (w\<lparr>null_skips := Suc (null_skips w)\<rparr>))"
        using Suc.prems by (intro Suc.IH [where added = added]) simp_all
      with ep True show ?thesis by simp
    next
      case nn: False
      show ?thesis
      proof (cases "call \<beta> (slots w ! b) args w")
        case (Returned r v)
        with call_trace [OF Returned] obtain c where "history v = history w @ [c]" "call_returns \<beta> c"
          by auto
        with Suc.prems have "history v = h @ (added @ [c])" "list_all (call_returns \<beta>) (added @ [c])"
          by simp_all
        from Suc.IH [OF this] ep nn Returned show ?thesis by simp
      next
        case (Thrown e v)
        with call_trace [OF Thrown] obtain c where "history v = history w @ [c]" "call_throws \<beta> e c"
          by auto
        with Suc.prems have "pass_trace \<beta> h (Thrown e v :: unit outcome)"
          by (intro pass_trace_ThrownI [where added = added and c = c]) simp_all
        with ep nn Thrown show ?thesis by simp
      next
        case Undefined
        with ep nn show ?thesis by simp
      qed
    qed
  qed
qed

lemma fire_result_loop_trace:
  assumes "fire_result_loop \<beta> args k i w = Some out"
    and "history w = h @ added" and "list_all (call_returns \<beta>) added"
  shows "pass_trace \<beta> h out"
  using assms
proof (induction k arbitrary: i w added)
  case 0
  then show ?case by simp
next
  case (Suc k)
  show ?case
  proof (cases "i < size_minus_1 (length (slots w))")
    case False
    with Suc.prems show ?thesis by (auto intro: pass_trace_ReturnedI)
  next
    case cond: True
    show ?thesis
    proof (cases "length (slots w) \<le> i")
      case True
      with cond Suc.prems(1) show ?thesis by auto
    next
      case inr: False
      show ?thesis
      proof (cases "slots w ! i = nullptr")
        case True
        with cond inr Suc.prems(1)
        have "fire_result_loop \<beta> args k (Suc i) (w\<lparr>null_skips := Suc (null_skips w)\<rparr>) = Some out"
          by simp
        moreover from Suc.prems(2) have "history (w\<lparr>null_skips := Suc (null_skips w)\<rparr>) = h @ added"
          by simp
        ultimately show ?thesis using Suc.prems(3) by (rule Suc.IH)
      next
        case nn: False
        show ?thesis
        proof (cases "call \<beta> (slots w ! i) args w")
          case (Returned r v)
          with call_trace [OF Returned] obtain c where "history v = history w @ [c]" "call_returns \<beta> c"
            by auto
          with Suc.prems have 1: "history v = h @ (added @ [c])" "list_all (call_returns \<beta>) (added @ [c])"
            by simp_all
          from cond inr nn Returned Suc.prems(1)
          have "fire_result_loop \<beta> args k (Suc i) v = Some out" by simp
          from Suc.IH [OF this 1] show ?thesis .
        next
          case (Thrown e v)
          with call_trace [OF Thrown] obtain c where "history v = history w @ [c]" "call_throws \<beta> e c"
            by auto
          with Suc.prems have "pass_trace \<beta> h (Thrown e v :: unit outcome)"
            by (intro pass_trace_ThrownI [where added = added and c = c]) simp_all
          moreover from cond inr nn Thrown Suc.prems(1) have "out = Thrown e v" by simp
          ultimately show ?thesis by simp
        next
          case Undefined
          with cond inr nn Suc.prems(1) show ?thesis by auto
        qed
      qed
    qed
  qed
qed

lemma fire_void_trace: "pass_trace \<beta> (history w) (fire_void \<beta> args w)"
  unfolding fire_void_def by (rule fire_void_loop_trace [where added = "[]"]) simp_all

lemma fire_result_trace:
  assumes "fire_result \<beta> args fuel w = Some out"
  shows "pass_trace \<beta> (history w) out"
proof (cases "slots w = []")
  case True
  with assms show ?thesis by (auto simp: fire_result_def)
next
  case False
  with assms obtain lp where lp: "fire_result_loop \<beta> args fuel 0 w = Some lp"
    by (auto simp: fire_result_def split: option.splits)
  have tr: "pass_trace \<beta> (history w) lp"
    by (rule fire_result_loop_trace [OF lp, where added = "[]"]) simp_all
  show ?thesis
  proof (cases lp)
    case (Returned u v)
    from tr have "pass_trace \<beta> (history w) (Returned u v)" by (simp add: Returned)
    from pass_trace_ReturnedD [OF this] obtain added where
      hv: "history v = history w @ added" and ok: "list_all (call_returns \<beta>) added" by blast
    show ?thesis
    proof (cases "slots v = [] \<or> last (slots v) = nullptr")
      case True
      with assms False lp Returned hv ok show ?thesis
        by (auto simp: fire_result_def split: if_splits intro: pass_trace_ReturnedI)
    next
      case nn: False
      with assms False lp Returned have out: "out = call \<beta> (last (slots v)) args v"
        by (simp add: fire_result_def)
      show ?thesis
      proof (cases out)
        case (Returned r x)
        with call_trace [OF out [symmetric]] obtain c where "history x = history v @ [c]" "call_returns \<beta> c"
          by auto
        with hv ok have "pass_trace \<beta> (history w) (Returned r x :: val outcome)"
          by (intro pass_trace_ReturnedI [where added = "added @ [c]"]) simp_all
        with Returned show ?thesis by simp
      next
        case (Thrown e x)
        with call_trace [OF out [symmetric]] obtain c where "history x = history v @ [c]" "call_throws \<beta> e c"
          by auto
        with hv ok have "pass_trace \<beta> (history w) (Thrown e x :: val outcome)"
          by (intro pass_trace_ThrownI [where added = added and c = c]) simp_all
        with Thrown show ?thesis by simp
      next
        case Undefined
        then show ?thesis by simp
      qed
    qed
  next
    case (Thrown e v)
    with assms False lp have out: "out = Thrown e v" by (simp add: fire_result_def)
    from tr have "pass_trace \<beta> (history w) (Thrown e v :: unit outcome)" by (simp add: Thrown)
    then have "pass_trace \<beta> (history w) (Thrown e v :: val outcome)"
      unfolding pass_trace.simps .
    with out show ?thesis by simp
  next
    case Undefined
    with assms False lp show ?thesis by (auto simp: fire_result_def)
  qed
qed

lemma ex_disconnects_pass_arg:
  "fire_result ex_disconnects [5] 3 ex_ABC
     = Some (Returned 3 ((erase 1 (delete 2 ex_ABC))\<lparr>log := [1, 3],
         history := [(ex_A, [5]), (ex_C, [5])]\<rparr>))"
  by (simp add: ex_defs model_defs eval_defs numeral_2_eq_2 numeral_3_eq_3 fun_eq_iff)

lemma ex_disc_throw_pass:
  "fire_result ex_disc_throw [5] 3 ex_ABC
     = Some (Thrown 42 ((erase 1 (delete 2 ex_ABC))\<lparr>log := [1, 3],
         history := [(ex_A, [5]), (ex_C, [5])]\<rparr>))"
  by (simp add: ex_defs model_defs eval_defs numeral_2_eq_2 numeral_3_eq_3 fun_eq_iff)

lemma ex_XA_registry: "registry ex_XA [ex_X, ex_A]"
  by (simp add: ex_defs model_defs)

lemma ex_XA_disconnect:
  "disconnect ex_A ex_XA = Some (erase 1 (delete 2 ex_XA))
   \<and> registry (erase 1 (delete 2 ex_XA)) [ex_X]"
  by (simp add: ex_defs model_defs eval_defs numeral_2_eq_2 fun_eq_iff)

section \<open>The claims\<close>

text \<open>
  C1, as amended. Neither operator takes a snapshot: both walk the live vector. When no
  target called in the pass calls connect or disconnect on the firing signal, and each
  returns, the pass calls exactly the targets registered when it began, in registration
  order, and leaves the registry as it found it.
\<close>

theorem fire_without_mutation:
  assumes "registry w ss" and "\<forall>s\<in>set ss. quiet \<beta> args s" and "length ss \<le> fuel"
  shows "fire_void \<beta> args w = Returned () (ran \<beta> args ss w)
    \<and> fire_result \<beta> args fuel w
        = Some (Returned (if ss = [] then value_init
                          else returned (snd (\<beta> (last ss) (forwarded (last ss) args))))
                 (ran \<beta> args ss w))
    \<and> history (ran \<beta> args ss w) = history w @ map (\<lambda>s. (s, forwarded s args)) ss
    \<and> slots (ran \<beta> args ss w) = slots w \<and> heap (ran \<beta> args ss w) = heap w
    \<and> registry (ran \<beta> args ss w) ss"
  using fire_void_quiet [OF assms(1,2)] fire_result_quiet_any [OF assms] assms(1)
  by (simp add: registry_def) (simp add: ran_def)

theorem fire_without_mutation_witness:
  "fire_void ex_ids [] ex_AB
     = Returned () (ex_AB\<lparr>log := [1, 2], history := [(ex_A, []), (ex_B, [])]\<rparr>)
   \<and> fire_result ex_ids [] 2 ex_AB
     = Some (Returned 2 (ex_AB\<lparr>log := [1, 2], history := [(ex_A, []), (ex_B, [])]\<rparr>))
   \<and> registry (ex_AB\<lparr>log := [1, 2], history := [(ex_A, []), (ex_B, [])]\<rparr>) [ex_A, ex_B]"
proof -
  have q: "\<forall>s\<in>set [ex_A, ex_B]. quiet ex_ids [] s" by (simp add: ex_ids_quiet)
  have f: "length [ex_A, ex_B] \<le> (2::nat)" by simp
  have e: "ran ex_ids [] [ex_A, ex_B] ex_AB
      = ex_AB\<lparr>log := [1, 2], history := [(ex_A, []), (ex_B, [])]\<rparr>"
    by (simp add: ex_defs model_defs)
  have r: "returned (snd (ex_ids ex_B (forwarded ex_B []))) = 2" by (simp add: ex_defs)
  from fire_without_mutation [OF ex_AB_registry q f] show ?thesis
    by (simp add: e r)
qed

text \<open>
  The claim as the spec states it fails. On a result-bearing signal with targets A, B, where
  A connects C while it runs, the pass that began with A and B registered also calls C and
  returns C's result. With A, B, C registered, where A disconnects B while it runs, the
  pass never calls B. On a no-result signal a target that connects or disconnects
  invalidates the iterators of the running loop.
\<close>

theorem fire_takes_no_snapshot:
  "registry ex_AB [ex_A, ex_B]
   \<and> fire_result ex_connects [] 3 ex_AB
       = Some (Returned 3 ((connect ex_C ex_AB)\<lparr>log := [1, 2, 3],
           history := [(ex_A, []), (ex_B, []), (ex_C, [])]\<rparr>))
   \<and> registry ex_ABC [ex_A, ex_B, ex_C]
   \<and> fire_result ex_disconnects [] 3 ex_ABC
       = Some (Returned 3 ((erase 1 (delete 2 ex_ABC))\<lparr>log := [1, 3],
           history := [(ex_A, []), (ex_C, [])]\<rparr>))
   \<and> fire_void ex_clears [] ex_AB = Undefined
   \<and> fire_void ex_connects [] ex_AB = Undefined"
  using ex_AB_registry ex_ABC_registry ex_connects_pass ex_disconnects_pass ex_clears_pass
    ex_connects_void_pass
  by simp

text \<open>
  C2, as amended. When no target called in the pass calls connect or disconnect on the
  firing signal and each returns, a pass of a result-bearing signal over a non-empty
  registry calls every registered target, in order, and returns the result of the last
  registered one; the results of the others are dropped. Any fuel above the number of
  targets before the last is enough for the pass to return. With two targets returning 1
  and 2 the pass returns 2 and both have logged.
\<close>

theorem fire_result_last_wins:
  assumes "registry w (ss @ [l])" and "\<forall>s\<in>set (ss @ [l]). quiet \<beta> args s"
    and "length ss < fuel"
  shows "fire_result \<beta> args fuel w
       = Some (Returned (returned (snd (\<beta> l (forwarded l args)))) (ran \<beta> args (ss @ [l]) w))
    \<and> history (ran \<beta> args (ss @ [l]) w)
        = history w @ map (\<lambda>s. (s, forwarded s args)) (ss @ [l])
    \<and> log (ran \<beta> args (ss @ [l]) w)
        = log w @ concat (map (\<lambda>s. emitted (fst (\<beta> s (forwarded s args)))) (ss @ [l]))"
  using fire_result_quiet [OF assms] by (simp add: ran_def)

theorem fire_result_last_wins_witness:
  "fire_result ex_ids [] 2 ex_AB = Some (Returned 2 (ex_AB\<lparr>log := [1, 2],
     history := [(ex_A, []), (ex_B, [])]\<rparr>))"
proof -
  have q: "\<forall>s\<in>set ([ex_A] @ [ex_B]). quiet ex_ids [] s" by (simp add: ex_ids_quiet)
  have r: "registry ex_AB ([ex_A] @ [ex_B])" using ex_AB_registry by simp
  have "length [ex_A] < (2::nat)" by simp
  from fire_result_last_wins [OF r q this]
  have "fire_result ex_ids [] 2 ex_AB
      = Some (Returned (returned (snd (ex_ids ex_B (forwarded ex_B []))))
          (ran ex_ids [] ([ex_A] @ [ex_B]) ex_AB))"
    by simp
  also have "returned (snd (ex_ids ex_B (forwarded ex_B []))) = 2"
    by (simp add: ex_defs)
  also have "ran ex_ids [] ([ex_A] @ [ex_B]) ex_AB = ex_AB\<lparr>log := [1, 2],
     history := [(ex_A, []), (ex_B, [])]\<rparr>"
    by (simp add: ex_defs model_defs)
  finally show ?thesis .
qed

text \<open>
  Without that condition the claim fails: with A, B, C registered, where A disconnects B
  while it runs, the loop finds \<^verbatim>\<open>size() - 1\<close> to be 1 after A, leaves, and calls C through
  \<^verbatim>\<open>back()\<close>. The registered target B is never called.
\<close>

theorem fire_result_skips_entry:
  "registry ex_ABC [ex_A, ex_B, ex_C]
   \<and> fire_result ex_disconnects [5] 3 ex_ABC
       = Some (Returned 3 ((erase 1 (delete 2 ex_ABC))\<lparr>log := [1, 3],
           history := [(ex_A, [5]), (ex_C, [5])]\<rparr>))"
  using ex_ABC_registry ex_disconnects_pass_arg by simp

text \<open>
  C3. \<^verbatim>\<open>call\<close> applies the callable of a slot to the first K of the N fire-time arguments,
  in their order, where K depends on the type of the callable and on N alone:
  K = min(M, N) when the callable's parameter count M is known, and K = N when it is not.
  M = 0 gives K = 0.
\<close>

theorem call_forwards_first_K:
  assumes "heap w sp = Some s"
  shows "call \<beta> sp args w = invoke \<beta> s (take (arity_K (declared (slot_F s)) (length args)) args) w
    \<and> suitable_size (slot_F s) (length args) = [0..<arity_K (declared (slot_F s)) (length args)]
    \<and> arity_K (Some M) N = min M N \<and> arity_K None N = N \<and> arity_K (Some 0) N = 0"
  using assms
  by (simp add: call_def forward_suitable_size)
    (simp add: suitable_size_def size_to_seq_def min_number_def traits_parameters_def arity_K_def
      split: option.splits)

theorem call_forwards_first_K_witness:
  "call ex_ids 1 [1, 2, 3] ex_A1 = Returned 1 (ex_A1\<lparr>log := [1], history := [(ex_A, [1])]\<rparr>)
   \<and> fire_void ex_ids [1, 2, 3] ex_A1
       = Returned () (ex_A1\<lparr>log := [1], history := [(ex_A, [1])]\<rparr>)"
proof -
  have slots1: "slots ex_A1 = [1]" "epoch (ex_A1\<lparr>log := [1], history := [(ex_A, [1])]\<rparr>) = epoch ex_A1"
    by (simp_all add: ex_defs model_defs)
  have "heap ex_A1 1 = Some ex_A" by (simp add: ex_defs model_defs)
  from call_forwards_first_K [OF this, of ex_ids "[1, 2, 3]"]
  have "call ex_ids 1 [1, 2, 3] ex_A1 = invoke ex_ids ex_A [1] ex_A1"
    by (simp add: ex_A_def arity_K_def)
  also have "\<dots> = Returned 1 (ex_A1\<lparr>log := [1], history := [(ex_A, [1])]\<rparr>)"
    by (simp add: invoke_def ex_defs model_defs)
  finally have c: "call ex_ids 1 [1, 2, 3] ex_A1
      = Returned 1 (ex_A1\<lparr>log := [1], history := [(ex_A, [1])]\<rparr>)" .
  then show ?thesis using slots1 by (simp add: fire_void_def nullptr_def)
qed

text \<open>
  C4, as amended. \<^verbatim>\<open>disconnect\<close> scans in registration order and stops at the first entry
  that has the dynamic type built from the argument's static types (the \<^verbatim>\<open>dynamic_cast\<close>)
  and members equal to the argument's values: for a free callable that is the entry
  \<open>slot_fn_free F f\<close>, for a bound one the entry \<open>slot_fn_bound C c F f\<close>. That entry's
  object is deleted and its position erased; the entries before and after it keep their
  objects and their order. After connecting A, B, A and disconnecting A a pass calls B
  and then A.
\<close>

theorem disconnect_first_match:
  assumes "registry w (pre @ p # post)" and "p \<notin> set pre" and "distinct (slots w)"
  shows "disconnect p w = Some (erase (length pre) (delete (slots w ! length pre) w))
    \<and> registry (erase (length pre) (delete (slots w ! length pre) w)) (pre @ post)
    \<and> heap (erase (length pre) (delete (slots w ! length pre) w)) (slots w ! length pre) = None
    \<and> (hit_free F f t \<longleftrightarrow> t = slot_fn_free F f)
    \<and> (hit_bound C c F f t \<longleftrightarrow> t = slot_fn_bound C c F f)"
  using disconnect_present [OF assms(1,2)] registry_erase [OF assms(1,3)]
  by (simp add: hit_free_iff hit_bound_iff) (simp add: erase_def delete_def)

theorem disconnect_first_match_witness:
  "disconnect ex_A ex_ABA = Some (erase 0 (delete 1 ex_ABA))
   \<and> registry (erase 0 (delete 1 ex_ABA)) [ex_B, ex_A]
   \<and> fire_void ex_ids [] (erase 0 (delete 1 ex_ABA))
      = Returned () ((erase 0 (delete 1 ex_ABA))\<lparr>log := [2, 1], history := [(ex_B, []), (ex_A, [])]\<rparr>)"
proof -
  let ?w = "erase 0 (delete 1 ex_ABA)"
  have r: "registry ex_ABA ([] @ ex_A # [ex_B, ex_A])" by (simp add: ex_defs model_defs)
  have n: "ex_A \<notin> set []" by simp
  have d: "distinct (slots ex_ABA)" by (simp add: ex_defs model_defs)
  have a: "slots ex_ABA ! 0 = 1" by (simp add: ex_defs model_defs)
  from disconnect_first_match [OF r n d] a
  have 1: "disconnect ex_A ex_ABA = Some ?w" and 2: "registry ?w [ex_B, ex_A]" by simp_all
  have "\<forall>s\<in>set [ex_B, ex_A]. quiet ex_ids [] s" by (simp add: ex_ids_quiet)
  from fire_void_quiet [OF 2 this]
  have "fire_void ex_ids [] ?w = Returned () (?w\<lparr>log := [2, 1], history := [(ex_B, []), (ex_A, [])]\<rparr>)"
    by (simp add: ex_defs model_defs erase_def delete_def)
  with 1 2 show ?thesis by simp
qed

text \<open>
  Equality of the values alone is not the identity: an entry whose callable has the value
  of the argument under another static type fails the cast. It is passed over and stays,
  and a later entry of the argument's type is the one removed.
\<close>

theorem disconnect_passes_over_equal_value:
  "registry ex_XA [ex_X, ex_A] \<and> slot_f ex_X = slot_f ex_A
   \<and> disconnect ex_A ex_XA = Some (erase 1 (delete 2 ex_XA))
   \<and> registry (erase 1 (delete 2 ex_XA)) [ex_X]"
  using ex_XA_registry ex_XA_disconnect by (simp add: ex_X_def ex_A_def)



text \<open>
  C6. A pass of a result-bearing signal whose registry is empty calls nothing, changes
  nothing and returns the value-initialised result, 0 for an integer result, whatever
  the fuel.
\<close>

theorem fire_result_empty:
  "slots w = [] \<Longrightarrow> fire_result \<beta> args fuel w = Some (Returned value_init w) \<and> value_init = 0"
  by (simp add: fire_result_def value_init_def)

theorem fire_result_empty_witness:
  "fire_result ex_ids [4, 5] 0 empty_signal = Some (Returned 0 empty_signal)"
proof -
  have "slots empty_signal = []" by (simp add: empty_signal_def)
  from fire_result_empty [OF this, of ex_ids "[4, 5]" 0] show ?thesis by simp
qed

text \<open>
  C7, as amended. In every pass of either kind a throw ends the pass: when the pass threw
  \<open>e\<close>, the last call it made is the one that threw \<open>e\<close> and every call before it returned,
  so no target is called after a throw; when the pass returned, every call it made
  returned. When moreover the targets registered before the throwing \<open>s\<close> only log and
  return, they were all called, in order, before \<open>s\<close>, and what \<open>s\<close> did before it threw
  stays done.
\<close>

theorem fire_fail_fast:
  "pass_trace \<beta> (history w) (fire_void \<beta> args w)
   \<and> (fire_result \<beta> args fuel w = Some out \<longrightarrow> pass_trace \<beta> (history w) out)
   \<and> (registry w (pre @ s # post) \<and> (\<forall>t\<in>set pre. quiet \<beta> args t)
        \<and> \<beta> s (forwarded s args) = (body, Throw e)
        \<and> exec_body body ((ran \<beta> args pre w)\<lparr>history :=
              history (ran \<beta> args pre w) @ [(s, forwarded s args)]\<rparr>) = Some w'
        \<and> length pre < fuel
      \<longrightarrow> fire_void \<beta> args w = Thrown e w' \<and> fire_result \<beta> args fuel w = Some (Thrown e w')
        \<and> history w' = history w @ map (\<lambda>t. (t, forwarded t args)) (pre @ [s]))"
proof (intro conjI impI)
  show "pass_trace \<beta> (history w) (fire_void \<beta> args w)" by (rule fire_void_trace)
next
  assume "fire_result \<beta> args fuel w = Some out"
  then show "pass_trace \<beta> (history w) out" by (rule fire_result_trace)
next
  assume a: "registry w (pre @ s # post) \<and> (\<forall>t\<in>set pre. quiet \<beta> args t)
        \<and> \<beta> s (forwarded s args) = (body, Throw e)
        \<and> exec_body body ((ran \<beta> args pre w)\<lparr>history :=
              history (ran \<beta> args pre w) @ [(s, forwarded s args)]\<rparr>) = Some w'
        \<and> length pre < fuel"
  then have 1: "registry w (pre @ s # post)" and 2: "\<forall>t\<in>set pre. quiet \<beta> args t"
    and 3: "\<beta> s (forwarded s args) = (body, Throw e)"
    and 4: "exec_body body ((ran \<beta> args pre w)\<lparr>history :=
              history (ran \<beta> args pre w) @ [(s, forwarded s args)]\<rparr>) = Some w'"
    and 5: "length pre < fuel" by simp_all
  show "fire_void \<beta> args w = Thrown e w'" by (rule fire_void_throw [OF 1 2 3 4])
  show "fire_result \<beta> args fuel w = Some (Thrown e w')" by (rule fire_result_throw [OF 1 2 3 4 5])
  from exec_body_fields(1) [OF 4]
  show "history w' = history w @ map (\<lambda>t. (t, forwarded t args)) (pre @ [s])"
    by (simp add: ran_def)
qed

theorem fire_fail_fast_witness:
  "fire_void ex_throw [5] ex_ABC
     = Thrown 42 (ex_ABC\<lparr>log := [1, 2], history := [(ex_A, [5]), (ex_B, [5])]\<rparr>)
   \<and> fire_result ex_throw [5] 2 ex_ABC
     = Some (Thrown 42 (ex_ABC\<lparr>log := [1, 2], history := [(ex_A, [5]), (ex_B, [5])]\<rparr>))
   \<and> pass_trace ex_throw (history ex_ABC) (fire_void ex_throw [5] ex_ABC)"
proof -
  let ?w = "ex_ABC\<lparr>log := [1, 2], history := [(ex_A, [5]), (ex_B, [5])]\<rparr>"
  have r: "registry ex_ABC ([ex_A] @ ex_B # [ex_C])" using ex_ABC_registry by simp
  have q: "\<forall>t\<in>set [ex_A]. quiet ex_throw [5] t" by (simp add: ex_defs model_defs)
  have b: "ex_throw ex_B (forwarded ex_B [5]) = ([Emit 2], Throw 42)" by (simp add: ex_throw_def)
  have x: "exec_body [Emit 2] ((ran ex_throw [5] [ex_A] ex_ABC)\<lparr>history :=
      history (ran ex_throw [5] [ex_A] ex_ABC) @ [(ex_B, forwarded ex_B [5])]\<rparr>) = Some ?w"
    by (simp add: ex_defs model_defs)
  have f: "length [ex_A] < (2::nat)" by simp
  note t = fire_fail_fast [of ex_throw ex_ABC "[5]" 2 "Thrown 42 ?w" "[ex_A]" ex_B "[ex_C]"
      "[Emit 2]" 42 ?w]
  from t have g: "pass_trace ex_throw (history ex_ABC) (fire_void ex_throw [5] ex_ABC)"
    by (rule conjunct1)
  from t r q b x f have "fire_void ex_throw [5] ex_ABC = Thrown 42 ?w"
    and "fire_result ex_throw [5] 2 ex_ABC = Some (Thrown 42 ?w)"
    by blast+
  with g show ?thesis by blast
qed

text \<open>
  A target registered before the throwing one need not have been called: with A, B, C
  registered, where A disconnects B while it runs and C throws, the pass calls A and C and
  ends in the throw, and B never ran.
\<close>

theorem fire_skips_before_throw:
  "registry ex_ABC [ex_A, ex_B, ex_C]
   \<and> fire_result ex_disc_throw [5] 3 ex_ABC
       = Some (Thrown 42 ((erase 1 (delete 2 ex_ABC))\<lparr>log := [1, 3],
           history := [(ex_A, [5]), (ex_C, [5])]\<rparr>))"
  using ex_ABC_registry ex_disc_throw_pass by simp

text \<open>
  C8. Disconnecting a target that is not registered is not an error and changes nothing:
  the state after the call is the state before it, so a later pass behaves as it would have.
\<close>

theorem disconnect_absent_noop:
  assumes "registry w ss" and "p \<notin> set ss"
  shows "disconnect p w = Some w"
  using disconnect_absent [OF assms] .

theorem disconnect_absent_noop_witness:
  "disconnect ex_C ex_AB = Some ex_AB"
proof -
  have "ex_C \<notin> set [ex_A, ex_B]" by (simp add: ex_defs)
  from disconnect_absent_noop [OF ex_AB_registry this] show ?thesis .
qed

text \<open>
  C9. \<^verbatim>\<open>disconnect()\<close> deletes the object of every entry and leaves the vector empty. A
  second call finds nothing to delete and leaves the vector empty and the store as it is.
  A pass after it calls nothing: it returns at once, with the default value when the
  signal has a result.
\<close>

theorem disconnect_all_empties:
  assumes "registry w ss" and "distinct (slots w)"
  shows "disconnect_all w = Some (cleared w)
    \<and> slots (cleared w) = [] \<and> (\<forall>a\<in>set (slots w). heap (cleared w) a = None)
    \<and> disconnect_all (cleared w) = Some ((cleared w)\<lparr>epoch := Suc (epoch (cleared w))\<rparr>)
    \<and> fire_void \<beta> args (cleared w) = Returned () (cleared w)
    \<and> fire_result \<beta> args fuel (cleared w) = Some (Returned value_init (cleared w))"
  using disconnect_all_cleared [OF assms]
  by (simp add: cleared_def disconnect_all_def fire_void_def fire_result_def)

theorem disconnect_all_empties_witness:
  "disconnect_all ex_ABC = Some (cleared ex_ABC)
   \<and> slots (cleared ex_ABC) = [] \<and> heap (cleared ex_ABC) 1 = None
   \<and> heap (cleared ex_ABC) 2 = None \<and> heap (cleared ex_ABC) 3 = None
   \<and> fire_void ex_ids [] (cleared ex_ABC) = Returned () (cleared ex_ABC)"
proof -
  have d: "distinct (slots ex_ABC)" by (simp add: ex_defs model_defs)
  have s: "slots ex_ABC = [1, 2, 3]" by (simp add: ex_defs model_defs)
  from disconnect_all_empties [OF ex_ABC_registry d, of ex_ids "[]" 0] s show ?thesis by simp
qed

text \<open>
  C10. In every state a signal can reach from the empty one through connect, disconnect and
  passes of either operator, whatever the targets do to the signal, each entry of the
  vector is a non-null pointer to a live slot object. No dispatch loop has met a null
  entry on the way there, so the branches for \<^verbatim>\<open>sp == nullptr\<close> were never taken, and no
  disconnect has met a dangling pointer.
\<close>

theorem slots_never_null:
  assumes "reachable w"
  shows "nullptr \<notin> set (slots w) \<and> (\<forall>a\<in>set (slots w). heap w a \<noteq> None)
    \<and> null_skips w = 0 \<and> disconnect p w \<noteq> None \<and> disconnect_all w \<noteq> None"
proof -
  from reachable_wf [OF assms] have wf: "wf w" and ns: "null_skips w = 0" by simp_all
  from wf_disconnect_defined [OF wf] have "disconnect p w \<noteq> None" "disconnect_all w \<noteq> None"
    by simp_all
  with wf ns show ?thesis by (simp add: wf_def)
qed

theorem slots_never_null_witness:
  "nullptr \<notin> set (slots ((connect ex_C ex_AB)\<lparr>log := [1, 2, 3],
       history := [(ex_A, []), (ex_B, []), (ex_C, [])]\<rparr>))
   \<and> null_skips ((connect ex_C ex_AB)\<lparr>log := [1, 2, 3],
       history := [(ex_A, []), (ex_B, []), (ex_C, [])]\<rparr>) = 0"
proof -
  let ?w = "(connect ex_C ex_AB)\<lparr>log := [1, 2, 3],
       history := [(ex_A, []), (ex_B, []), (ex_C, [])]\<rparr>"
  have "final (Returned (3::val) ?w) = Some ?w" by simp
  from reachable.fired_result [OF ex_AB_reachable ex_connects_pass this]
  have "reachable ?w" .
  from slots_never_null [OF this] show ?thesis by simp
qed

end
